theory Spec2Isabelle
  imports Main "HOL-Library.Multiset" "HOL-Library.Product_Lexorder" "HOL-Library.List_Lexorder"
begin

unbundle bit_operations_syntax

section \<open>JavaScript numbers as used by suffixarray.js\<close>

text \<open>
  Indices, lengths and symbols are JavaScript numbers holding integers; they are
  modelled as \<^typ>\<open>int\<close>. The operators \<open>>>\<close> and \<open>&\<close> first convert their operand
  to a signed 32-bit integer (ToInt32): the wrap-around is written out in
  \<open>toInt32\<close>. \<open>x >> n\<close> is the arithmetic shift of that 32-bit value.
  \<open>x % n\<close> takes the sign of the dividend (\<open>js_rem\<close>), unlike \<open>mod\<close> on \<^typ>\<open>int\<close>.
  NaN (the result of arithmetic on \<open>undefined\<close>) is \<open>None\<close> in \<^typ>\<open>int option\<close>.
\<close>

definition toInt32 :: "int \<Rightarrow> int" where
  "toInt32 x = (x + 2147483648) mod 4294967296 - 2147483648"

definition sar32 :: "int \<Rightarrow> nat \<Rightarrow> int" where
  "sar32 x n = toInt32 x div 2 ^ n"

definition and32 :: "int \<Rightarrow> int \<Rightarrow> int" where
  "and32 x y = toInt32 x AND toInt32 y"

definition js_rem :: "int \<Rightarrow> int \<Rightarrow> int" where
  "js_rem x n = (if x < 0 then - ((- x) mod n) else x mod n)"

text \<open>\<open>x - y\<close> where either operand may be \<open>undefined\<close> (a missing array slot).\<close>

definition js_sub :: "int option \<Rightarrow> int option \<Rightarrow> int option" where
  "js_sub x y = (case x of None \<Rightarrow> None | Some u \<Rightarrow> (case y of None \<Rightarrow> None | Some v \<Rightarrow> Some (u - v)))"

text \<open>\<open>x || y\<close> on numbers: \<open>x\<close> when it is truthy (neither 0 nor NaN), else \<open>y\<close>.\<close>

definition js_or :: "int option \<Rightarrow> int option \<Rightarrow> int option" where
  "js_or x y = (case x of None \<Rightarrow> y | Some u \<Rightarrow> if u \<noteq> 0 then Some u else y)"

text \<open>\<open>x < 0\<close>: false for NaN.\<close>

definition js_neg :: "int option \<Rightarrow> bool" where
  "js_neg x = (case x of None \<Rightarrow> False | Some u \<Rightarrow> u < 0)"

text \<open>
  A JavaScript number is a double: it holds 53 significant bits, and the result of
  \<open>+\<close>, \<open>-\<close>, \<open>*\<close> and \<open>/\<close> is the exact result rounded to the nearest double, a
  tie going to the double whose last significant bit is 0. \<open>bit_length m\<close> is the
  number of binary digits of \<open>m\<close>; an integer of magnitude \<open>m\<close> with more than 53 of
  them lies between two neighbouring doubles that are \<open>u = 2 ^ (bit_length m - 53)\<close>
  apart, both multiples of \<open>u\<close>. \<open>to_double x\<close> is the double nearest to the integer
  \<open>x\<close>; integers of magnitude up to \<open>2^53\<close> are doubles themselves.
\<close>

function bit_length :: "int \<Rightarrow> nat" where
  "bit_length n = (if n \<le> 0 then 0 else Suc (bit_length (n div 2)))"
  by pat_completeness auto
termination
  by (relation "measure nat") auto

declare bit_length.simps [simp del]

definition to_double :: "int \<Rightarrow> int" where
  "to_double x =
     (let m = \<bar>x\<bar>;
          u = 2 ^ (bit_length m - 53);
          q = m div u;
          r = m mod u
      in sgn x * (if 2 * r < u \<or> (2 * r = u \<and> even q) then q * u else (q + 1) * u))"

text \<open>
  \<open>Math.floor(p / 3)\<close> for an integer \<open>p\<close>. The quotient \<open>p / 3\<close> is rounded to a double
  before \<open>floor\<close> sees it. When its integer part has fewer than 53 binary digits, the
  doubles around it are at most \<open>1/2\<close> apart, the fraction \<open>1/3\<close> or \<open>2/3\<close> is rounded
  to a value strictly between 0 and 1, and the floor is that of the exact quotient.
  Otherwise the quotient is rounded to a multiple of \<open>u \<ge> 1\<close>, an integer, as in
  \<open>to_double\<close>: it lies \<open>r / 3\<close> above the multiple \<open>q * u\<close>, with \<open>r < 3 * u\<close>.
\<close>

definition floor_thirds :: "int \<Rightarrow> int" where
  "floor_thirds p =
     (let m = \<bar>p\<bar>;
          e = bit_length (m div 3);
          u = 2 ^ (e - 53);
          q = m div (3 * u);
          r = m mod (3 * u)
      in if e < 53 then p div 3
         else sgn p * (if 2 * r < 3 * u \<or> (2 * r = 3 * u \<and> even q) then q * u else (q + 1) * u))"

text \<open>The value of \<open>i\<close> after \<open>i--\<close>.\<close>

definition js_dec :: "int \<Rightarrow> int" where
  "js_dec i = to_double (i - 1)"

section \<open>bsort: the radix sort\<close>

text \<open>
  \<open>while (i--) j = Math.max(key(a[i]), j)\<close>, from the last element to the first,
  starting at \<open>j = -1\<close>.
\<close>

definition max_key :: "('a \<Rightarrow> int) \<Rightarrow> 'a list \<Rightarrow> int" where
  "max_key key a = foldr (\<lambda>x j. max (key x) j) a (- 1)"

text \<open>\<open>bits = j >> 24 && 32 || j >> 16 && 24 || j >> 8 && 16 || 8\<close>\<close>

definition bits_of :: "int \<Rightarrow> nat" where
  "bits_of j = (if sar32 j 24 \<noteq> 0 then 32 else if sar32 j 16 \<noteq> 0 then 24
                else if sar32 j 8 \<noteq> 0 then 16 else 8)"

text \<open>The bucket of an item in the pass for digit position \<open>d\<close>: \<open>(key(a[i]) >> d) & 15\<close>.\<close>

definition digit :: "('a \<Rightarrow> int) \<Rightarrow> nat \<Rightarrow> 'a \<Rightarrow> nat" where
  "digit key d x = nat (and32 (sar32 (key x) d) 15)"

text \<open>
  \<open>for (i = len; i--;) buckets[...].push(a[i])\<close>: the items are pushed from the last to
  the first, so each bucket holds its items in reverse order of appearance.
\<close>

definition fill_buckets :: "('a \<Rightarrow> int) \<Rightarrow> nat \<Rightarrow> 'a list \<Rightarrow> 'a list list" where
  "fill_buckets key d a =
     foldr (\<lambda>x bk. bk[digit key d x := bk ! digit key d x @ [x]]) a (replicate 16 [])"

text \<open>
  \<open>for (b = 0; b < 16; b++) for (j = buckets[b].length; j--;) a[++i] = buckets[b][j]\<close>:
  the buckets are read in order, each from its last item to its first.
\<close>

definition drain :: "'a list list \<Rightarrow> 'a list" where
  "drain bk = concat (map rev bk)"

definition pass :: "('a \<Rightarrow> int) \<Rightarrow> nat \<Rightarrow> 'a list \<Rightarrow> 'a list" where
  "pass key d a = drain (fill_buckets key d a)"

text \<open>\<open>for (; d < bits; d += 4) { ... }\<close>\<close>

function bsort_loop :: "('a \<Rightarrow> int) \<Rightarrow> nat \<Rightarrow> nat \<Rightarrow> 'a list \<Rightarrow> 'a list" where
  "bsort_loop key bits d a = (if d < bits then bsort_loop key bits (d + 4) (pass key d a) else a)"
  by pat_completeness auto
termination
  by (relation "measure (\<lambda>(key, bits, d, a). bits - d)") auto

declare bsort_loop.simps [simp del]

definition bsort :: "'a list \<Rightarrow> ('a \<Rightarrow> int) \<Rightarrow> 'a list" where
  "bsort a key = bsort_loop key (bits_of (max_key key a)) 0 a"

section \<open>The suffix array construction\<close>

text \<open>
  \<open>i = alen; while (i--) a[i] = ((i * 3) >> 1) + 1\<close>. The test reads \<open>i\<close>, then \<open>i\<close> is
  decremented, and the body sees the decremented value. The array is written from
  index \<open>alen - 1\<close> down to 0; the list grows at its head, which is the array as long
  as the counter goes down by exactly one, as it does from \<open>2^53\<close> on down. For a
  negative \<open>alen\<close> the counter never reaches 0, and from \<open>2^53 + 4\<close> on the decrement
  is rounded back to the same number: the loop does not end,
  \<open>None\<close>.
\<close>

partial_function (option) fill :: "int \<Rightarrow> int list \<Rightarrow> int list option" where
  "fill i a =
     (if i = 0 then Some a
      else fill (js_dec i) ((sar32 (to_double (js_dec i * 3)) 1 + 1) # a))"

declare fill.simps [code]

text \<open>\<open>for (i = 3; i--;) bsort(a, function(j) { return s(i + j) })\<close>\<close>

definition triplet_sort :: "(int \<Rightarrow> int) \<Rightarrow> int list \<Rightarrow> int list" where
  "triplet_sort s a =
     bsort (bsort (bsort a (\<lambda>j. s (2 + j))) (\<lambda>j. s (1 + j))) (\<lambda>j. s (0 + j))"

text \<open>The slot of index \<open>x\<close> in the array of names: \<open>floor(x / 3) + (x % 3 == 1 ? 0 : r)\<close>.\<close>

definition slot :: "int \<Rightarrow> int \<Rightarrow> int" where
  "slot r x = x div 3 + (if js_rem x 3 = 1 then 0 else r)"

text \<open>
  The naming loop \<open>for (i = 1; i < alen; i++)\<close>: \<open>prev\<close> is \<open>a[i-1]\<close>, the list holds
  \<open>a[i], a[i+1], ...\<close>; the array \<open>b\<close> of names is a map from slots to names.
\<close>

fun names_loop :: "(int \<Rightarrow> int) \<Rightarrow> int \<Rightarrow> int \<Rightarrow> int list \<Rightarrow> int \<Rightarrow> (int \<rightharpoonup> int)
    \<Rightarrow> int \<times> (int \<rightharpoonup> int)" where
  "names_loop s r prev [] j b = (j, b)"
| "names_loop s r prev (x # xs) j b =
     (let j' = (if s x \<noteq> s prev \<or> s (x + 1) \<noteq> s (prev + 1) \<or> s (x + 2) \<noteq> s (prev + 2)
                then j + 1 else j)
      in names_loop s r x xs j' (b(slot r x \<mapsto> j')))"

text \<open>
  \<open>j = b[floor(a[0] / 3) + (a[0] % 3 == 1 ? 0 : r)] = 0\<close>, then the loop. On an empty
  \<open>a\<close> the index is NaN and no slot of \<open>b\<close> is written.
\<close>

definition names :: "(int \<Rightarrow> int) \<Rightarrow> int \<Rightarrow> int list \<Rightarrow> int \<times> (int \<rightharpoonup> int)" where
  "names s r a = (case a of [] \<Rightarrow> (0, Map.empty)
                  | x # xs \<Rightarrow> names_loop s r x xs 0 [slot r x \<mapsto> 0])"

text \<open>
  The accessor of the reduced problem: \<open>function(i) { return i >= alen ? 0 : b[i] }\<close>.
  A slot that was never written would read \<open>undefined\<close>, which is no integer; lemma
  \<open>names_dom\<close> below shows that every slot below \<open>alen\<close> is written when
  \<open>len \<le> 2^30 + 1\<close>. The value 0 stands in for the missing slot.
\<close>

definition reduced :: "(int \<rightharpoonup> int) \<Rightarrow> int \<Rightarrow> int \<Rightarrow> int" where
  "reduced b alen i = (if i \<ge> alen then 0 else (case b i of Some v \<Rightarrow> v | None \<Rightarrow> 0))"

text \<open>\<open>for (i = alen; i--;) a[i] = b[i] < r ? b[i] * 3 + 1 : ((b[i] - r) * 3 + 2)\<close>\<close>

definition unreduce :: "int \<Rightarrow> int list \<Rightarrow> int list" where
  "unreduce r b = map (\<lambda>x. if x < r then x * 3 + 1 else (x - r) * 3 + 2) b"

text \<open>
  \<open>for (i = 0; i < alen; i++) if (a[i] % 3 == 1) b.push(a[i] - 1);\<close>
  \<open>if (len % 3 == 1) b.push(len - 1);\<close>
\<close>

definition zero_class :: "int \<Rightarrow> int list \<Rightarrow> int list" where
  "zero_class len a =
     map (\<lambda>x. x - 1) (filter (\<lambda>x. js_rem x 3 = 1) a) @ (if js_rem len 3 = 1 then [len - 1] else [])"

text \<open>
  \<open>while (i--) lookup[a[i]] = i\<close>, with \<open>i\<close> starting at \<open>alen\<close>: the writes go from
  the last index to the first, so for a repeated value the smallest index stays.
\<close>

fun mk_lookup :: "int list \<Rightarrow> int \<Rightarrow> (int \<rightharpoonup> int)" where
  "mk_lookup [] i = Map.empty"
| "mk_lookup (x # xs) i = (mk_lookup xs (i + 1))(x \<mapsto> i)"

text \<open>
  The comparison of the merge, for \<open>x = a[i]\<close> and \<open>y = b[j]\<close>:
  \<open>(s(x) - s(y)) || (x % 3 == 2 ? (s(x+1) - s(y+1)) || (lookup[x+2] - lookup[y+2])
                                  : (lookup[x+1] - lookup[y+1]))\<close>.
\<close>

definition tmp :: "(int \<Rightarrow> int) \<Rightarrow> (int \<rightharpoonup> int) \<Rightarrow> int \<Rightarrow> int \<Rightarrow> int option" where
  "tmp s lookup x y =
     js_or (Some (s x - s y))
       (if js_rem x 3 = 2
        then js_or (Some (s (x + 1) - s (y + 1))) (js_sub (lookup (x + 2)) (lookup (y + 2)))
        else js_sub (lookup (x + 1)) (lookup (y + 1)))"

text \<open>
  The three merge loops: while both arrays have items left the smaller head (by
  \<open>tmp < 0\<close>) goes to \<open>result\<close>, then the rest of \<open>a\<close>, then the rest of \<open>b\<close>.
  The lists are the parts of \<open>a\<close> from \<open>i\<close> and of \<open>b\<close> from \<open>j\<close>; the bounds \<open>alen\<close>
  and \<open>blen = len - alen\<close> of the source are the lengths of the two lists (lemma
  \<open>length_zero_class\<close>).
\<close>

fun merge :: "(int \<Rightarrow> int) \<Rightarrow> (int \<rightharpoonup> int) \<Rightarrow> int list \<Rightarrow> int list \<Rightarrow> int list" where
  "merge s lookup (x # xs) (y # ys) =
     (if js_neg (tmp s lookup x y) then x # merge s lookup xs (y # ys)
      else y # merge s lookup (x # xs) ys)"
| "merge s lookup xs [] = xs"
| "merge s lookup [] ys = ys"

text \<open>The second half of \<open>_suffixArray\<close>, from \<open>b = []\<close> to \<open>return result\<close>.\<close>

definition finish :: "(int \<Rightarrow> int) \<Rightarrow> int \<Rightarrow> int list \<Rightarrow> int list" where
  "finish s len a = merge s (mk_lookup a 0) a (bsort (zero_class len a) (\<lambda>j. s j))"

text \<open>
  \<open>_suffixArray(s, len)\<close>. \<open>alen = floor(2 * len / 3)\<close>, \<open>blen = len - alen\<close>,
  \<open>r = (alen + 1) >> 1\<close>. The recursive call is made when \<open>j < alen - 1\<close>.
  The source has no \<open>throw\<close>: a call returns its array (\<open>Some\<close>) or, when the
  first loop does not end, does not return (\<open>None\<close>). \<open>alen\<close>, \<open>alen + 1\<close>
  and the counter of the first loop are computed for every \<open>len\<close> and are rounded
  as doubles. What follows the first loop is written with exact integer
  arithmetic, which is that of the source while the values stay below \<open>2^53\<close>.
  That the recursion ends is not built into the definition; it is a theorem
  (\<open>u_suffixArray_total\<close>).
\<close>

partial_function (option) u_suffixArray :: "(int \<Rightarrow> int) \<Rightarrow> int \<Rightarrow> int list option" where
  "u_suffixArray s len =
     (let alen = floor_thirds (2 * len);
          r = sar32 (to_double (alen + 1)) 1
      in case fill alen [] of
           None \<Rightarrow> None
         | Some a0 \<Rightarrow>
             let a1 = triplet_sort s a0;
                 jb = names s r a1
             in if fst jb < alen - 1
                then Option.bind (u_suffixArray (reduced (snd jb) alen) alen)
                       (\<lambda>b'. Some (finish s len (unreduce r b')))
                else Some (finish s len a1))"

declare u_suffixArray.simps [code]



section \<open>The entry point\<close>

text \<open>
  The first argument of \<open>suffixArray\<close> is a string or a function from indices to
  symbols. A string is a list of characters with codes below 256 here; the code
  units of a JavaScript string go up to 65535, and nothing below depends on the
  difference. The second argument is any JavaScript value: \<open>undefined\<close> when it is
  left out, a number, or a string that is not a numeric literal (such as
  \<open>"min"\<close> or \<open>"wrap"\<close>), which converts to NaN wherever a number is expected.
\<close>

datatype source = Text string | Fn "int \<Rightarrow> int"

datatype js_arg = Undefined | Number int | Word string

text \<open>ToNumber on the second argument; \<open>None\<close> is NaN.\<close>

fun to_number :: "js_arg \<Rightarrow> int option" where
  "to_number Undefined = None"
| "to_number (Number n) = Some n"
| "to_number (Word w) = None"

text \<open>ToBoolean on the second argument, as \<open>len || s.length\<close> evaluates it.\<close>

fun truthy :: "js_arg \<Rightarrow> bool" where
  "truthy Undefined = False"
| "truthy (Number n) = (n \<noteq> 0)"
| "truthy (Word w) = (w \<noteq> [])"

text \<open>
  \<open>s.charCodeAt(i)\<close>. Outside the string it is NaN, which is no integer: the value
  is left unspecified there.
\<close>

definition charCodeAt :: "string \<Rightarrow> int \<Rightarrow> int" where
  "charCodeAt t i = (if 0 \<le> i \<and> i < int (length t) then of_char (t ! nat i) else undefined)"

text \<open>
  \<open>_suffixArray\<close> on a length that is NaN: \<open>alen\<close> and \<open>blen\<close> are NaN and \<open>r\<close> is 0.
  NaN is falsy and every comparison with NaN is false, so \<open>while (i--)\<close>,
  \<open>i < alen\<close>, \<open>j < alen - 1\<close> and \<open>len % 3 == 1\<close> all fail at once: \<open>a\<close> and \<open>b\<close>
  stay empty, are sorted and merged.
\<close>

definition u_suffixArray_NaN :: "(int \<Rightarrow> int) \<Rightarrow> int list option" where
  "u_suffixArray_NaN s =
     (let a = triplet_sort s [];
          b = bsort [] (\<lambda>j. s j)
      in Some (merge s (mk_lookup [] 0) a b))"

text \<open>
  The function branch of \<open>suffixArray\<close>:
  \<open>_suffixArray(function(i) { return i >= len ? 0 : s(i) }, len)\<close>.
  With \<open>len\<close> NaN the test \<open>i >= len\<close> is false.
\<close>

definition suffixArray_fn :: "(int \<Rightarrow> int) \<Rightarrow> js_arg \<Rightarrow> int list option" where
  "suffixArray_fn s len =
     (case to_number len of
        None \<Rightarrow> u_suffixArray_NaN s
      | Some n \<Rightarrow> u_suffixArray (\<lambda>i. if i \<ge> n then 0 else s i) n)"

text \<open>
  \<open>suffixArray(s, len)\<close>: a string is turned into its \<open>charCodeAt\<close> function with
  length \<open>len || s.length\<close>, and \<open>suffixArray\<close> is called again on the function.
\<close>

fun suffixArray :: "source \<Rightarrow> js_arg \<Rightarrow> int list option" where
  "suffixArray (Text t) len =
     suffixArray_fn (charCodeAt t) (if truthy len then len else Number (int (length t)))"
| "suffixArray (Fn s) len = suffixArray_fn s len"

text \<open>
  The string branch reads two things of the string: its \<open>charCodeAt\<close> function and
  its \<open>length\<close>. \<open>suffixArray_units c n len\<close> is that branch for a string of
  \<open>n\<close> code units \<open>c 0, \<dots>, c (n - 1)\<close> of any width (up to 65535 in JavaScript).
\<close>

definition suffixArray_units :: "(int \<Rightarrow> int) \<Rightarrow> int \<Rightarrow> js_arg \<Rightarrow> int list option" where
  "suffixArray_units c n len = suffixArray_fn c (if truthy len then len else Number n)"

section \<open>Auxiliary definitions\<close>

text \<open>The array \<open>a\<close> after the first loop of \<open>_suffixArray\<close>, for \<open>alen \<ge> 0\<close>.\<close>

definition a_init :: "int \<Rightarrow> int list" where
  "a_init alen = map (\<lambda>k. sar32 (k * 3) 1 + 1) (map int [0..<nat alen])"

text \<open>
  The two samples of the indices below \<open>len\<close>: those that are not multiples of 3,
  and the multiples of 3.
\<close>

definition S12 :: "int \<Rightarrow> int set" where
  "S12 len = {x. 0 < x \<and> x < len \<and> x mod 3 \<noteq> 0}"

definition S0 :: "int \<Rightarrow> int set" where
  "S0 len = {x. 0 \<le> x \<and> x < len \<and> x mod 3 = 0}"

text \<open>The triplet of symbols at index \<open>i\<close>, which the specification ranks.\<close>

definition triple :: "(int \<Rightarrow> int) \<Rightarrow> int \<Rightarrow> int \<times> int \<times> int" where
  "triple s i = (s i, s (i + 1), s (i + 2))"

text \<open>
  The order that the result is meant to have, in the words of the specification: the
  suffix starting at \<open>i\<close> is the sequence of the symbols from \<open>i\<close> to the end, suffixes
  are compared symbol by symbol, and a proper prefix comes before the longer suffix
  (the lexicographic order on lists). With every symbol at least 1 this is the
  comparison that reads the symbol 0 past the end.
\<close>

definition suffix_at :: "(int \<Rightarrow> int) \<Rightarrow> int \<Rightarrow> int \<Rightarrow> int list" where
  "suffix_at s len i = map s [i..len - 1]"

definition suffixes_sorted :: "(int \<Rightarrow> int) \<Rightarrow> int \<Rightarrow> int list \<Rightarrow> bool" where
  "suffixes_sorted s len res = sorted (map (suffix_at s len) res)"

section \<open>Concrete inputs\<close>

text \<open>
  The accessor that \<open>suffixArray\<close> builds for the three symbols
  \<open>1, 2^32, 1\<close> and length 3.
\<close>

definition wide3 :: "int \<Rightarrow> int" where
  "wide3 i = (if i \<ge> 3 then 0 else if i = 1 then 4294967296 else 1)"

text \<open>The accessor that \<open>suffixArray\<close> builds for the string \<open>"aaaaa"\<close>.\<close>

definition run5 :: "int \<Rightarrow> int" where
  "run5 i = (if i \<ge> 5 then 0 else 97)"

text \<open>
  A length just above \<open>2^30 + 1\<close>, and two accessors that agree on every
  non-negative index: both return \<open>i + 1\<close> there, and differ on negative indices.
\<close>

definition big :: int where "big = 1073741826"

definition probe_lo :: "int \<Rightarrow> int" where
  "probe_lo i = (if i < 0 then 0 else i + 1)"


section \<open>32-bit arithmetic\<close>

lemma and15_mod: "(y::int) AND 15 = y mod 16"
proof -
  have "y AND mask 4 = take_bit 4 y" by (simp add: take_bit_eq_mask)
  then show ?thesis by (simp add: take_bit_eq_mod mask_numeral)
qed

lemma toInt32_small: "- 2147483648 \<le> x \<Longrightarrow> x < 2147483648 \<Longrightarrow> toInt32 x = x"
  by (simp add: toInt32_def)

lemma toInt32_range: "- 2147483648 \<le> toInt32 x \<and> toInt32 x < 2147483648"
proof -
  have "0 \<le> (x + 2147483648) mod 4294967296" "(x + 2147483648) mod 4294967296 < 4294967296"
    by simp_all
  then show ?thesis unfolding toInt32_def by linarith
qed

lemma digit_less: "digit key d x < 16"
proof -
  have "and32 (sar32 (key x) d) 15 = toInt32 (sar32 (key x) d) mod 16"
    by (simp add: and32_def toInt32_small and15_mod)
  moreover have "toInt32 (sar32 (key x) d) mod 16 < 16" by simp
  moreover have "0 \<le> toInt32 (sar32 (key x) d) mod 16" by simp
  ultimately show ?thesis unfolding digit_def by linarith
qed

section \<open>One pass of bsort is a stable sort by one digit\<close>

lemma fill_buckets_length: "length (fill_buckets key d a) = 16"
  by (induction a) (simp_all add: fill_buckets_def)

lemma fill_buckets_nth:
  "k < 16 \<Longrightarrow> fill_buckets key d a ! k = rev (filter (\<lambda>x. digit key d x = k) a)"
proof (induction a)
  case Nil
  then show ?case by (simp add: fill_buckets_def)
next
  case (Cons x xs)
  have step: "fill_buckets key d (x # xs) =
      (fill_buckets key d xs)[digit key d x := fill_buckets key d xs ! digit key d x @ [x]]"
    by (simp add: fill_buckets_def)
  show ?case using Cons digit_less [of key d x]
    by (auto simp: step fill_buckets_length nth_list_update)
qed

lemma pass_filters:
  "pass key d a = concat (map (\<lambda>k. filter (\<lambda>x. digit key d x = k) a) [0..<16])"
proof -
  have "map rev (fill_buckets key d a) = map (\<lambda>k. filter (\<lambda>x. digit key d x = k) a) [0..<16]"
    by (rule nth_equalityI) (simp_all add: fill_buckets_length fill_buckets_nth)
  then show ?thesis by (simp add: pass_def drain_def)
qed

lemma filter_buckets:
  "filter (\<lambda>x. f x = c) (concat (map (\<lambda>k. filter (\<lambda>x. f x = k) xs) [0..<n])) =
     (if c < n then filter (\<lambda>x. f x = c) xs else [])"
proof (induction n)
  case 0
  then show ?case by simp
next
  case (Suc n)
  have "filter (\<lambda>x. f x = c) (filter (\<lambda>x. f x = n) xs) = (if c = n then filter (\<lambda>x. f x = c) xs else [])"
    by (induction xs) auto
  with Suc show ?case by (auto simp: less_Suc_eq)
qed

lemma mset_buckets:
  "mset (concat (map (\<lambda>k. filter (\<lambda>x. f x = k) xs) [0..<n])) = filter_mset (\<lambda>x. f x < n) (mset xs)"
proof (induction n)
  case 0
  then show ?case by simp
next
  case (Suc n)
  have "filter_mset (\<lambda>x. f x < Suc n) (mset xs) =
        filter_mset (\<lambda>x. f x < n) (mset xs) + filter_mset (\<lambda>x. f x = n) (mset xs)"
    by (induction xs) (auto simp: less_Suc_eq)
  with Suc show ?case by simp
qed

lemma sorted_buckets:
  "sorted (map f (concat (map (\<lambda>k. filter (\<lambda>x. f x = k) xs) [0..<n])))"
proof (induction n)
  case 0
  then show ?case by simp
next
  case (Suc n)
  have "set (concat (map (\<lambda>k. filter (\<lambda>x. f x = k) xs) [0..<n])) \<subseteq> {x. f x < n}"
    by auto
  moreover have "sorted (map f (filter (\<lambda>x. f x = n) xs))"
    by (induction xs) auto
  ultimately show ?case using Suc
    by (auto simp: sorted_append)
qed

lemma buckets_sort_key:
  fixes f :: "'a \<Rightarrow> nat"
  assumes "\<forall>x\<in>set xs. f x < n"
  shows "concat (map (\<lambda>k. filter (\<lambda>x. f x = k) xs) [0..<n]) = sort_key f xs"
proof (rule properties_for_sort_key [symmetric])
  show "mset (concat (map (\<lambda>k. filter (\<lambda>x. f x = k) xs) [0..<n])) = mset xs"
    using assms by (simp add: mset_buckets filter_mset_eq_conv)
next
  fix k
  assume "k \<in> set (concat (map (\<lambda>k. filter (\<lambda>x. f x = k) xs) [0..<n]))"
  then have "f k < n" using assms by auto
  have eq: "(\<lambda>x. f k = f x) = (\<lambda>x. f x = f k)" by auto
  show "filter (\<lambda>x. f k = f x) (concat (map (\<lambda>k. filter (\<lambda>x. f x = k) xs) [0..<n])) =
        filter (\<lambda>x. f k = f x) xs"
    unfolding eq using \<open>f k < n\<close> by (simp add: filter_buckets)
next
  show "sorted (map f (concat (map (\<lambda>k. filter (\<lambda>x. f x = k) xs) [0..<n])))"
    by (rule sorted_buckets)
qed

lemma pass_sort_key: "pass key d a = sort_key (digit key d) a"
  unfolding pass_filters by (rule buckets_sort_key) (simp add: digit_less)

lemma mset_pass: "mset (pass key d a) = mset a"
  by (simp add: pass_sort_key)

lemma mset_bsort_loop: "mset (bsort_loop key bits d a) = mset a"
proof (induction key bits d a rule: bsort_loop.induct)
  case (1 key bits d a)
  show ?case
  proof (cases "d < bits")
    case True
    then show ?thesis using 1 by (subst bsort_loop.simps) (simp add: mset_pass)
  next
    case False
    then show ?thesis by (subst bsort_loop.simps) simp
  qed
qed

lemma mset_bsort: "mset (bsort a key) = mset a"
  by (simp add: bsort_def mset_bsort_loop)

section \<open>Composing stable sorts\<close>

lemma sorted_wrt_refine:
  assumes "sorted_wrt P ys" and "\<And>c. sorted_wrt Q (filter (\<lambda>x. f x = c) ys)"
  shows "sorted_wrt (\<lambda>x y. P x y \<and> (f x = f y \<longrightarrow> Q x y)) ys"
  using assms
proof (induction ys)
  case Nil
  then show ?case by simp
next
  case (Cons y ys)
  have tail: "sorted_wrt Q (filter (\<lambda>x. f x = c) ys)" for c
    using Cons.prems(2) [of c] by (cases "f y = c") simp_all
  have "Q y z" if "z \<in> set ys" "f y = f z" for z
    using Cons.prems(2) [of "f y"] that by simp
  with Cons tail show ?case by simp
qed

lemma sort_key_lex:
  fixes f :: "'a \<Rightarrow> 'b::linorder" and g :: "'a \<Rightarrow> 'c::linorder"
  shows "sort_key f (sort_key g xs) = sort_key (\<lambda>x. (f x, g x)) xs"
proof (rule properties_for_sort_key [symmetric])
  show "mset (sort_key f (sort_key g xs)) = mset xs" by simp
next
  fix k
  have "filter (\<lambda>x. (f k, g k) = (f x, g x)) (sort_key f (sort_key g xs)) =
        filter (\<lambda>x. g x = g k) (filter (\<lambda>x. f x = f k) (sort_key f (sort_key g xs)))"
    by (simp add: conj_commute eq_commute)
  also have "\<dots> = filter (\<lambda>x. g x = g k) (filter (\<lambda>x. f x = f k) (sort_key g xs))"
    by (simp only: sort_key_stable)
  also have "\<dots> = filter (\<lambda>x. f x = f k) (filter (\<lambda>x. g x = g k) (sort_key g xs))"
    by (simp add: conj_commute)
  also have "\<dots> = filter (\<lambda>x. f x = f k) (filter (\<lambda>x. g x = g k) xs)"
    by (simp only: sort_key_stable)
  also have "\<dots> = filter (\<lambda>x. (f k, g k) = (f x, g x)) xs"
    by (simp add: conj_commute eq_commute)
  finally show "filter (\<lambda>x. (f k, g k) = (f x, g x)) (sort_key f (sort_key g xs)) =
        filter (\<lambda>x. (f k, g k) = (f x, g x)) xs" .
next
  let ?ys = "sort_key f (sort_key g xs)"
  have 1: "sorted_wrt (\<lambda>x y. f x \<le> f y) ?ys"
    using sorted_sort_key [of f "sort_key g xs"] by (simp add: sorted_map)
  have 2: "sorted_wrt (\<lambda>x y. g x \<le> g y) (filter (\<lambda>x. f x = c) ?ys)" for c
  proof -
    have "sorted (map g (filter (\<lambda>x. f x = c) (sort_key g xs)))"
      by (rule sorted_filter) (rule sorted_sort_key)
    then show ?thesis by (simp add: sort_key_stable sorted_map)
  qed
  have 3: "sorted_wrt (\<lambda>x y. f x \<le> f y \<and> (f x = f y \<longrightarrow> g x \<le> g y)) ?ys"
    by (rule sorted_wrt_refine [OF 1 2])
  have "sorted_wrt (\<lambda>x y. (f x, g x) \<le> (f y, g y)) ?ys"
    by (rule sorted_wrt_mono_rel [OF _ 3]) auto
  then show "sorted (map (\<lambda>x. (f x, g x)) ?ys)"
    by (simp add: sorted_map)
qed

lemma sort_key_order_cong:
  fixes h :: "'a \<Rightarrow> 'b::linorder" and h' :: "'a \<Rightarrow> 'c::linorder"
  assumes "\<And>x y. x \<in> set xs \<Longrightarrow> y \<in> set xs \<Longrightarrow> (h x \<le> h y) = (h' x \<le> h' y)"
  shows "sort_key h xs = sort_key h' xs"
proof (rule properties_for_sort_key [symmetric])
  show "mset (sort_key h xs) = mset xs" by simp
next
  fix k
  assume "k \<in> set (sort_key h xs)"
  then have k: "k \<in> set xs" by simp
  have eq: "(h' k = h' x) = (h x = h k)" if "x \<in> set xs" for x
    using assms [OF k that] assms [OF that k] by auto
  have "filter (\<lambda>x. h' k = h' x) (sort_key h xs) = filter (\<lambda>x. h x = h k) (sort_key h xs)"
    by (rule filter_cong) (simp_all add: eq)
  also have "\<dots> = filter (\<lambda>x. h x = h k) xs" by (simp only: sort_key_stable)
  also have "\<dots> = filter (\<lambda>x. h' k = h' x) xs"
    by (rule filter_cong) (simp_all add: eq)
  finally show "filter (\<lambda>x. h' k = h' x) (sort_key h xs) = filter (\<lambda>x. h' k = h' x) xs" .
next
  have 1: "sorted_wrt (\<lambda>x y. h x \<le> h y) (sort_key h xs)"
    using sorted_sort_key [of h xs] by (simp add: sorted_map)
  have "sorted_wrt (\<lambda>x y. h' x \<le> h' y) (sort_key h xs)"
    by (rule sorted_wrt_mono_rel [OF _ 1]) (simp add: assms)
  then show "sorted (map h' (sort_key h xs))" by (simp add: sorted_map)
qed

section \<open>bsort on keys below \<open>2^32\<close>\<close>

lemma toInt32_shift: "\<exists>q. toInt32 u = u + 4294967296 * q"
proof -
  have "(u + 2147483648) mod 4294967296 = u + 2147483648 - 4294967296 * ((u + 2147483648) div 4294967296)"
    by (simp add: minus_mult_div_eq_mod)
  then have "toInt32 u = u + 4294967296 * (- ((u + 2147483648) div 4294967296))"
    by (simp add: toInt32_def)
  then show ?thesis by blast
qed

lemma sar32_range: "- 2147483648 \<le> sar32 u d \<and> sar32 u d < 2147483648"
proof -
  have r: "- 2147483648 \<le> toInt32 u" "toInt32 u < 2147483648"
    using toInt32_range [of u] by simp_all
  have p: "(1::int) \<le> 2 ^ d" by simp
  have "- 2147483648 \<le> toInt32 u div 2 ^ d"
  proof (cases "0 \<le> toInt32 u")
    case True
    then have "0 \<le> toInt32 u div 2 ^ d" by (simp add: pos_imp_zdiv_nonneg_iff)
    then show ?thesis by linarith
  next
    case False
    define c :: int where "c = - 2147483648"
    have "c * 2 ^ d \<le> c * 1"
      using p by (intro mult_left_mono_neg) (simp_all add: c_def)
    moreover have "c * 1 \<le> toInt32 u" using r by (simp add: c_def)
    ultimately have "c * 2 ^ d \<le> toInt32 u" by (rule order_trans)
    then have "(c * 2 ^ d) div 2 ^ d \<le> toInt32 u div 2 ^ d"
      by (intro zdiv_mono1) simp_all
    moreover have "(c * 2 ^ d) div 2 ^ d = c"
      by (rule nonzero_mult_div_cancel_right) simp
    ultimately show ?thesis by (simp add: c_def)
  qed
  moreover have "toInt32 u div 2 ^ d < 2147483648"
  proof (cases "0 \<le> toInt32 u")
    case True
    have "toInt32 u div 2 ^ d \<le> toInt32 u div 1"
      using True by (intro zdiv_mono2) simp_all
    then show ?thesis using r by simp
  next
    case False
    then have "toInt32 u div 2 ^ d < 0" by (simp add: div_neg_pos_less0)
    then show ?thesis by linarith
  qed
  ultimately show ?thesis by (simp add: sar32_def)
qed

lemma digit_eq:
  assumes "d \<le> 28"
  shows "digit key d x = nat ((key x div 2 ^ d) mod 16)"
proof -
  obtain q where q: "toInt32 (key x) = key x + 4294967296 * q"
    using toInt32_shift by blast
  have pw: "(4294967296::int) = 2 ^ d * (16 * 2 ^ (28 - d))"
  proof -
    have "(2::int) ^ d * (2 ^ 4 * 2 ^ (28 - d)) = 2 ^ (d + (4 + (28 - d)))"
      by (simp only: power_add)
    also have "d + (4 + (28 - d)) = 32" using assms by simp
    finally show ?thesis by simp
  qed
  have "toInt32 (key x) div 2 ^ d = (key x + 2 ^ d * (16 * 2 ^ (28 - d) * q)) div 2 ^ d"
    unfolding q by (subst pw) (simp add: algebra_simps)
  also have "\<dots> = key x div 2 ^ d + 16 * 2 ^ (28 - d) * q"
    by simp
  finally have "(toInt32 (key x) div 2 ^ d) mod 16 = (key x div 2 ^ d) mod 16"
    by (simp add: mult.assoc)
  moreover have "and32 (sar32 (key x) d) 15 = sar32 (key x) d mod 16"
    using sar32_range [of "key x" d]
    by (simp add: and32_def toInt32_small and15_mod)
  ultimately show ?thesis by (simp add: digit_def sar32_def)
qed

lemma lex_digit:
  fixes u v :: int
  shows "((nat ((u div 2 ^ d) mod 16), u mod 2 ^ d) \<le> (nat ((v div 2 ^ d) mod 16), v mod 2 ^ d))
         = (u mod 2 ^ (d + 4) \<le> v mod 2 ^ (d + 4))"
proof -
  define P :: int where "P = 2 ^ d"
  have P: "0 < P" by (simp add: P_def)
  define a where "a = (u div P) mod 16"
  define b where "b = (v div P) mod 16"
  define x where "x = u mod P"
  define y where "y = v mod P"
  have rng: "0 \<le> a" "0 \<le> b" "0 \<le> x" "x < P" "0 \<le> y" "y < P"
    using P by (simp_all add: a_def b_def x_def y_def)
  have u: "u mod 2 ^ (d + 4) = P * a + x"
    using zmod_zmult2_eq [of 16 u P] by (simp add: P_def a_def x_def power_add)
  have v: "v mod 2 ^ (d + 4) = P * b + y"
    using zmod_zmult2_eq [of 16 v P] by (simp add: P_def b_def y_def power_add)
  have main: "(a < b \<or> a \<le> b \<and> x \<le> y) = (P * a + x \<le> P * b + y)"
  proof (cases "a < b")
    case True
    then have "P * (a + 1) \<le> P * b" using P by (intro mult_left_mono) simp_all
    then have "P * a + P \<le> P * b" by (simp add: algebra_simps)
    with rng True show ?thesis by simp
  next
    case False
    show ?thesis
    proof (cases "a = b")
      case True
      then show ?thesis by simp
    next
      case False
      with \<open>\<not> a < b\<close> have "b < a" by simp
      then have "P * (b + 1) \<le> P * a" using P by (intro mult_left_mono) simp_all
      then have "P * b + P \<le> P * a" by (simp add: algebra_simps)
      with rng \<open>b < a\<close> show ?thesis by simp
    qed
  qed
  have "(nat a < nat b \<or> nat a \<le> nat b \<and> x \<le> y) = (a < b \<or> a \<le> b \<and> x \<le> y)"
    using rng by auto
  then show ?thesis
    unfolding u v less_eq_prod_simp using main by (simp add: a_def b_def x_def y_def P_def)
qed

lemma bsort_loop_radix:
  assumes "d mod 4 = 0" "bits mod 4 = 0" "bits \<le> 32" "d \<le> bits"
  shows "bsort_loop key bits d (sort_key (\<lambda>x. key x mod 2 ^ d) a) =
         sort_key (\<lambda>x. key x mod 2 ^ bits) a"
  using assms
proof (induction "bits - d" arbitrary: d rule: less_induct)
  case less
  show ?case
  proof (cases "d < bits")
    case False
    with less.prems have "d = bits" by simp
    then show ?thesis by (subst bsort_loop.simps) simp
  next
    case True
    with less.prems have d28: "d \<le> 28" and d4: "d + 4 \<le> bits" by presburger+
    have dg: "digit key d = (\<lambda>x. nat ((key x div 2 ^ d) mod 16))"
      by (rule ext) (rule digit_eq [OF d28])
    have "pass key d (sort_key (\<lambda>x. key x mod 2 ^ d) a) =
          sort_key (\<lambda>x. (nat ((key x div 2 ^ d) mod 16), key x mod 2 ^ d)) a"
      by (simp add: pass_sort_key dg sort_key_lex)
    also have "\<dots> = sort_key (\<lambda>x. key x mod 2 ^ (d + 4)) a"
      by (rule sort_key_order_cong) (rule lex_digit)
    finally have step: "pass key d (sort_key (\<lambda>x. key x mod 2 ^ d) a) =
          sort_key (\<lambda>x. key x mod 2 ^ (d + 4)) a" .
    have "bsort_loop key bits (d + 4) (sort_key (\<lambda>x. key x mod 2 ^ (d + 4)) a) =
          sort_key (\<lambda>x. key x mod 2 ^ bits) a"
      using less.prems True d4 by (intro less.hyps) simp_all
    with True step show ?thesis by (subst bsort_loop.simps) simp
  qed
qed

lemma max_key_ge: "x \<in> set a \<Longrightarrow> key x \<le> max_key key a"
  by (induction a) (auto simp: max_key_def)

lemma max_key_cases: "max_key key a = - 1 \<or> max_key key a \<in> key ` set a"
  by (induction a) (auto simp: max_key_def max_def)

lemma bits_of_cases: "bits_of j = 8 \<or> bits_of j = 16 \<or> bits_of j = 24 \<or> bits_of j = 32"
  by (simp add: bits_of_def)

lemma bits_of_bound:
  assumes "0 \<le> j" "j < 4294967296"
  shows "j < 2 ^ bits_of j"
proof (cases "j < 2147483648")
  case True
  then have "toInt32 j = j" using assms by (simp add: toInt32_small)
  then show ?thesis using assms True
    by (auto simp: bits_of_def sar32_def div_eq_0_iff)
next
  case False
  have "(j + 2147483648) mod 4294967296 = (j + 2147483648 - 4294967296) mod 4294967296"
    by (simp only: minus_mod_self2)
  also have "\<dots> = j - 2147483648"
    using False assms by simp
  finally have "toInt32 j = j - 4294967296" by (simp add: toInt32_def)
  then have "toInt32 j div 2 ^ 24 < 0" using assms by (simp add: div_neg_pos_less0)
  then show ?thesis using assms by (simp add: bits_of_def sar32_def)
qed

lemma bsort_sort_key:
  assumes "\<forall>x\<in>set a. 0 \<le> key x \<and> key x < 4294967296"
  shows "bsort a key = sort_key key a"
proof -
  define bits where "bits = bits_of (max_key key a)"
  have b: "bits mod 4 = 0" "bits \<le> 32"
    using bits_of_cases [of "max_key key a"] by (auto simp: bits_def)
  have "bsort a key = bsort_loop key bits 0 (sort_key (\<lambda>x. key x mod 2 ^ 0) a)"
    by (simp add: bsort_def bits_def sort_key_const)
  also have "\<dots> = sort_key (\<lambda>x. key x mod 2 ^ bits) a"
    using b by (intro bsort_loop_radix) simp_all
  also have "\<dots> = sort_key key a"
  proof (rule sort_key_order_cong)
    fix x y
    assume xy: "x \<in> set a" "y \<in> set a"
    have small: "key z mod 2 ^ bits = key z" if "z \<in> set a" for z
    proof -
      have m: "max_key key a \<in> key ` set a"
        using max_key_cases [of key a] max_key_ge [OF that, of key] assms that by auto
      then have "0 \<le> max_key key a" "max_key key a < 4294967296" using assms by auto
      then have "max_key key a < 2 ^ bits" unfolding bits_def by (rule bits_of_bound)
      then have "key z < 2 ^ bits" using max_key_ge [OF that, of key] by linarith
      then show ?thesis using assms that by simp
    qed
    show "(key x mod 2 ^ bits \<le> key y mod 2 ^ bits) = (key x \<le> key y)"
      by (simp add: small xy)
  qed
  finally show ?thesis .
qed

lemma bsort_Nil: "bsort [] key = []"
  using mset_bsort [of "[]" key] by simp

lemma triplet_sort_sort_key:
  assumes "\<forall>i\<in>set a. \<forall>k\<in>{0, 1, 2}. 0 \<le> s (k + i) \<and> s (k + i) < 4294967296"
  shows "triplet_sort s a = sort_key (\<lambda>i. (s i, s (i + 1), s (i + 2))) a"
proof -
  have 2: "bsort a (\<lambda>j. s (2 + j)) = sort_key (\<lambda>j. s (2 + j)) a"
    using assms by (intro bsort_sort_key) simp
  have 1: "bsort (sort_key (\<lambda>j. s (2 + j)) a) (\<lambda>j. s (1 + j)) =
           sort_key (\<lambda>j. s (1 + j)) (sort_key (\<lambda>j. s (2 + j)) a)"
    using assms by (intro bsort_sort_key) simp
  have 0: "bsort (sort_key (\<lambda>j. s (1 + j)) (sort_key (\<lambda>j. s (2 + j)) a)) (\<lambda>j. s (0 + j)) =
           sort_key (\<lambda>j. s (0 + j)) (sort_key (\<lambda>j. s (1 + j)) (sort_key (\<lambda>j. s (2 + j)) a))"
    using assms by (intro bsort_sort_key) simp
  show ?thesis
    unfolding triplet_sort_def 2 1 0 by (simp add: sort_key_lex add.commute)
qed

lemma triplet_sort_wide3: "triplet_sort wide3 [1, 2] = [1, 2]"
  by code_simp

lemma sort_key_wide3: "sort_key (\<lambda>i. (wide3 i, wide3 (i + 1), wide3 (i + 2))) [1, 2] = [2, 1]"
  by (simp add: wide3_def)

lemma u_suffixArray_NaN_empty: "u_suffixArray_NaN s = Some []"
  by (simp add: u_suffixArray_NaN_def triplet_sort_def bsort_Nil)

section \<open>Rounding\<close>

lemma bit_length_le: "n < 2 ^ k \<Longrightarrow> bit_length n \<le> k"
proof (induction n arbitrary: k rule: bit_length.induct)
  case (1 n)
  show ?case
  proof (cases "n \<le> 0")
    case True
    then show ?thesis by (subst bit_length.simps) simp
  next
    case False
    with 1(2) obtain k' where k: "k = Suc k'" by (cases k) auto
    with 1(2) have "n div 2 < 2 ^ k'" by auto
    then have "bit_length (n div 2) \<le> k'" using False by (intro 1(1)) simp
    then show ?thesis using False k by (subst bit_length.simps) simp
  qed
qed

lemma pow_bit_length: "0 < n \<Longrightarrow> 2 ^ (bit_length n - 1) \<le> n"
proof (induction n rule: bit_length.induct)
  case (1 n)
  show ?case
  proof (cases "n div 2 \<le> 0")
    case True
    then have "bit_length (n div 2) = 0" by (subst bit_length.simps) simp
    then have "bit_length n = 1" using 1(2) by (subst bit_length.simps) simp
    then show ?thesis using 1(2) by simp
  next
    case False
    then have ih: "2 ^ (bit_length (n div 2) - 1) \<le> n div 2" using 1 by simp
    have pos: "0 < bit_length (n div 2)" using False by (subst bit_length.simps) simp
    have "bit_length n = Suc (bit_length (n div 2))" using 1(2) by (subst bit_length.simps) simp
    then have "(2::int) ^ (bit_length n - 1) = 2 * 2 ^ (bit_length (n div 2) - 1)"
      using pos by (cases "bit_length (n div 2)") simp_all
    also have "\<dots> \<le> 2 * (n div 2)" using ih by simp
    also have "\<dots> \<le> n" by simp
    finally show ?thesis .
  qed
qed

lemma less_pow_bit_length: "n < 2 ^ bit_length n"
proof (induction n rule: bit_length.induct)
  case (1 n)
  show ?case
  proof (cases "n \<le> 0")
    case True
    then show ?thesis by (subst bit_length.simps) simp
  next
    case False
    then have "n div 2 < 2 ^ bit_length (n div 2)" by (rule 1)
    then have "n < 2 * 2 ^ bit_length (n div 2)" by simp
    then show ?thesis using False by (subst bit_length.simps) simp
  qed
qed

lemma bit_length_eq: "2 ^ k \<le> n \<Longrightarrow> n < 2 ^ Suc k \<Longrightarrow> bit_length n = Suc k"
proof -
  assume a: "2 ^ k \<le> n" "n < 2 ^ Suc k"
  have "bit_length n \<le> Suc k" using a(2) by (rule bit_length_le)
  moreover have "\<not> bit_length n \<le> k"
  proof
    assume b: "bit_length n \<le> k"
    have "n < 2 ^ bit_length n" by (rule less_pow_bit_length)
    also have "\<dots> \<le> 2 ^ k" using b by (intro power_increasing) simp_all
    finally show False using a(1) by simp
  qed
  ultimately show ?thesis by simp
qed

lemma to_double_small: "\<bar>x\<bar> < 9007199254740992 \<Longrightarrow> to_double x = x"
proof -
  assume a: "\<bar>x\<bar> < 9007199254740992"
  then have "\<bar>x\<bar> < 2 ^ 53" by simp
  then have "bit_length \<bar>x\<bar> \<le> 53" by (rule bit_length_le)
  then have "bit_length \<bar>x\<bar> - 53 = 0" by simp
  then show ?thesis by (simp add: to_double_def Let_def mult_sgn_abs)
qed

lemma round_pos:
  fixes m u :: int
  assumes "0 < u" "u \<le> m"
  shows "0 < (if 2 * (m mod u) < u \<or> (2 * (m mod u) = u \<and> even (m div u)) then m div u * u else (m div u + 1) * u)"
proof -
  have "0 < m div u" using assms by (simp add: pos_imp_zdiv_pos_iff)
  then have "0 < m div u * u" using assms(1) by simp
  moreover have "0 < (m div u + 1) * u" using \<open>0 < m div u\<close> assms(1) by simp
  ultimately show ?thesis by presburger
qed

lemma to_double_negative: "x < 0 \<Longrightarrow> to_double x < 0"
proof -
  assume x: "x < 0"
  define m where "m = \<bar>x\<bar>"
  define u :: int where "u = 2 ^ (bit_length m - 53)"
  have m: "0 < m" using x by (simp add: m_def)
  have "u \<le> 2 ^ (bit_length m - 1)" unfolding u_def by (rule power_increasing) simp_all
  also have "\<dots> \<le> m" using m by (rule pow_bit_length)
  finally have "u \<le> m" .
  moreover have "0 < u" by (simp add: u_def)
  ultimately have "0 < (if 2 * (m mod u) < u \<or> (2 * (m mod u) = u \<and> even (m div u)) then m div u * u else (m div u + 1) * u)"
    by (intro round_pos)
  moreover have "sgn x = - 1" using x by simp
  ultimately show ?thesis
    unfolding to_double_def Let_def m_def [symmetric] u_def [symmetric] by simp
qed

lemma bit_length_54: "2 ^ 53 \<le> n \<Longrightarrow> n < 2 ^ 54 \<Longrightarrow> bit_length n = 54"
  using bit_length_eq [of 53 n] by simp

lemma js_dec_stuck:
  "js_dec 12009599006321322 = 12009599006321320"
  "js_dec 12009599006321320 = 12009599006321320"
  by (simp_all add: js_dec_def to_double_def Let_def bit_length_54)

lemma floor_thirds_2_55: "floor_thirds 36028797018963968 = 12009599006321322"
  by (simp add: floor_thirds_def Let_def bit_length_54)

lemma floor_thirds_small: "\<bar>p\<bar> < 13510798882111488 \<Longrightarrow> floor_thirds p = p div 3"
proof -
  assume a: "\<bar>p\<bar> < 13510798882111488"
  then have "\<bar>p\<bar> div 3 < 2 ^ 52" by simp
  then have "bit_length (\<bar>p\<bar> div 3) \<le> 52" by (rule bit_length_le)
  then show ?thesis by (simp add: floor_thirds_def Let_def)
qed

lemma floor_thirds_cases:
  assumes "0 < p"
  obtains "floor_thirds p = p div 3"
  | u q where "0 < u" "12 * u \<le> p" "3 * (q * u) \<le> p" "floor_thirds p = q * u \<or> floor_thirds p = q * u + u" "0 < q"
proof (cases "bit_length (p div 3) < 53")
  case True
  then have "floor_thirds p = p div 3" using assms by (simp add: floor_thirds_def Let_def)
  then show ?thesis by (rule that(1))
next
  case False
  define e where "e = bit_length (p div 3)"
  define u :: int where "u = 2 ^ (e - 53)"
  define q where "q = p div (3 * u)"
  have e: "53 \<le> e" using False by (simp add: e_def)
  have u: "0 < u" by (simp add: u_def)
  have x: "0 < p div 3"
  proof (rule ccontr)
    assume "\<not> 0 < p div 3"
    then have "bit_length (p div 3) = 0" by (subst bit_length.simps) simp
    with e show False by (simp add: e_def)
  qed
  have "4 * u = 2 ^ 2 * 2 ^ (e - 53)" by (simp add: u_def)
  also have "\<dots> = 2 ^ (2 + (e - 53))" by (simp only: power_add)
  also have "\<dots> \<le> 2 ^ (e - 1)" using e by (intro power_increasing) simp_all
  also have "\<dots> \<le> p div 3" unfolding e_def using x by (rule pow_bit_length)
  finally have "4 * u \<le> p div 3" .
  then have u12: "12 * u \<le> p" by simp
  have "p div (3 * u) * (3 * u) + p mod (3 * u) = p" by (rule div_mult_mod_eq)
  moreover have "0 \<le> p mod (3 * u)" using u by simp
  ultimately have "q * (3 * u) \<le> p" unfolding q_def by linarith
  then have q3: "3 * (q * u) \<le> p" by (simp add: mult.commute mult.left_commute)
  have "3 * u \<le> p" using u12 u by simp
  then have qpos: "0 < q" unfolding q_def using u by (simp add: pos_imp_zdiv_pos_iff)
  have "floor_thirds p = (if 2 * (p mod (3 * u)) < 3 * u \<or> (2 * (p mod (3 * u)) = 3 * u \<and> even q)
                          then q * u else (q + 1) * u)"
    using False assms by (simp add: floor_thirds_def Let_def e_def u_def q_def)
  then have fl: "floor_thirds p = q * u \<or> floor_thirds p = q * u + u"
    by (simp add: distrib_right split: if_splits)
  from u u12 q3 fl qpos show ?thesis by (rule that(2))
qed

lemma floor_thirds_less: "0 < len \<Longrightarrow> floor_thirds (2 * len) < len"
proof -
  assume l: "0 < len"
  then have "0 < 2 * len" by simp
  then show ?thesis
  proof (cases rule: floor_thirds_cases)
    case 1
    then show ?thesis using l by simp
  next
    case (2 u q)
    define A where "A = q * u"
    from 2 have "0 < u" "12 * u \<le> 2 * len" "3 * A \<le> 2 * len"
      "floor_thirds (2 * len) = A \<or> floor_thirds (2 * len) = A + u"
      by (simp_all add: A_def)
    then show ?thesis using l by linarith
  qed
qed

lemma floor_thirds_pos: "0 < p \<Longrightarrow> 0 < p div 3 \<Longrightarrow> 0 < floor_thirds p"
proof -
  assume p: "0 < p" "0 < p div 3"
  from p(1) show ?thesis
  proof (cases rule: floor_thirds_cases)
    case 1
    with p(2) show ?thesis by simp
  next
    case (2 u q)
    then have "0 < q * u" by simp
    with 2 show ?thesis by linarith
  qed
qed

lemma floor_thirds_negative: "p < 0 \<Longrightarrow> floor_thirds p < 0"
proof -
  assume p: "p < 0"
  show ?thesis
  proof (cases "bit_length (\<bar>p\<bar> div 3) < 53")
    case True
    then have "floor_thirds p = p div 3" by (simp add: floor_thirds_def Let_def)
    then show ?thesis using p by simp
  next
    case False
    have a: "\<bar>p\<bar> = - p" using p by simp
    have "0 < (- p) div 3"
    proof (rule ccontr)
      assume "\<not> 0 < (- p) div 3"
      then have "bit_length ((- p) div 3) = 0" by (subst bit_length.simps) simp
      with False a show False by simp
    qed
    then have "0 < floor_thirds (- p)" using p by (intro floor_thirds_pos) simp_all
    moreover have "floor_thirds p = - floor_thirds (- p)"
      using False p by (simp add: floor_thirds_def Let_def sgn_if)
    ultimately show ?thesis by simp
  qed
qed

section \<open>The first loop\<close>

lemma js_dec_small: "\<bar>i - 1\<bar> < 9007199254740992 \<Longrightarrow> js_dec i = i - 1"
  by (simp add: js_dec_def to_double_small)

lemma js_dec_negative: "i < 0 \<Longrightarrow> js_dec i < 0"
  unfolding js_dec_def by (rule to_double_negative) simp

text \<open>
  A set of counters that the decrement does not leave and that does not hold 0: the
  loop started inside it does not end.
\<close>

lemma fill_closed:
  assumes "fill i a = Some y" "\<And>j. j \<in> S \<Longrightarrow> js_dec j \<in> S" "0 \<notin> S"
  shows "i \<notin> S"
  using assms(1)
proof (induct rule: fill.raw_induct [rotated 1, consumes 1])
  case (1 f i a y)
  show ?case
  proof (cases "i = 0")
    case True
    then show ?thesis using assms(3) by simp
  next
    case False
    with 1(2) have "f (js_dec i) ((sar32 (to_double (js_dec i * 3)) 1 + 1) # a) = Some y" by simp
    then have "js_dec i \<notin> S" by (rule 1(1))
    then show ?thesis using assms(2) by blast
  qed
qed

lemma fill_Some_nonneg:
  assumes "fill i a = Some y"
  shows "0 \<le> i"
proof -
  have "i \<notin> {j. j < 0}"
    using assms by (rule fill_closed) (simp_all add: js_dec_negative)
  then show ?thesis by simp
qed

lemma fill_negative: "i < 0 \<Longrightarrow> fill i a = None"
  using fill_Some_nonneg [of i a] by (cases "fill i a") auto

lemma fill_stuck: "fill 12009599006321322 a = None"
proof (cases "fill 12009599006321322 a")
  case None
  then show ?thesis .
next
  case (Some y)
  then have "12009599006321322 \<notin> {12009599006321322, 12009599006321320 :: int}"
    by (rule fill_closed) (auto simp: js_dec_stuck)
  then show ?thesis by simp
qed

lemma fill_nat:
  "int n \<le> 2251799813685248 \<Longrightarrow>
   fill (int n) a = Some (map (\<lambda>k. sar32 (k * 3) 1 + 1) (map int [0..<n]) @ a)"
proof (induction n arbitrary: a)
  case 0
  then show ?case by (subst fill.simps) simp
next
  case (Suc n)
  have d: "js_dec (int (Suc n)) = int n"
    using Suc.prems by (subst js_dec_small) simp_all
  have t: "to_double (int n * 3) = int n * 3"
    using Suc.prems by (intro to_double_small) simp
  have "fill (int (Suc n)) a = fill (int n) ((sar32 (int n * 3) 1 + 1) # a)"
    by (subst fill.simps) (simp only: d t, simp)
  then show ?case using Suc.prems by (simp add: Suc.IH)
qed

lemma fill_a_init:
  "0 \<le> alen \<Longrightarrow> alen \<le> 2251799813685248 \<Longrightarrow> fill alen [] = Some (a_init alen)"
  using fill_nat [of "nat alen" "[]"] by (simp add: a_init_def)

lemma u_suffixArray_negative: "len < 0 \<Longrightarrow> u_suffixArray s len = None"
proof -
  assume "len < 0"
  then have "floor_thirds (2 * len) < 0" by (intro floor_thirds_negative) simp
  then show ?thesis by (subst u_suffixArray.simps) (simp add: fill_negative)
qed


section \<open>The samples\<close>

lemma sar32_half: "0 \<le> x \<Longrightarrow> x < 2147483648 \<Longrightarrow> sar32 x 1 = x div 2"
  by (simp add: sar32_def toInt32_small)

lemma set_int_upt: "set (map int [0..<nat n]) = {0..<n}"
proof (cases "0 \<le> n")
  case True
  then show ?thesis using image_int_atLeastLessThan [of 0 "nat n"] by simp
next
  case False
  then show ?thesis by simp
qed

lemma a_init_small:
  assumes "alen \<le> 715827883"
  shows "a_init alen = map (\<lambda>k. k * 3 div 2 + 1) (map int [0..<nat alen])"
  unfolding a_init_def
proof (rule map_cong [OF refl])
  fix k assume "k \<in> set (map int [0..<nat alen])"
  then have "0 \<le> k" "k < alen" unfolding set_int_upt by simp_all
  with assms have "sar32 (k * 3) 1 = k * 3 div 2"
    by (intro sar32_half) simp_all
  then show "sar32 (k * 3) 1 + 1 = k * 3 div 2 + 1" by simp
qed

lemma count_one:
  fixes len :: int
  assumes "0 \<le> len" "r = (2 * len div 3 + 1) div 2"
  shows "(3 * m + 1 < len) = (m < r)"
  using assms by presburger

lemma count_two:
  fixes len :: int
  assumes "0 \<le> len" "r = (2 * len div 3 + 1) div 2"
  shows "(3 * m + 2 < len) = (m < 2 * len div 3 - r)"
  using assms by presburger

lemma half_one:
  fixes alen :: int
  assumes "r = (alen + 1) div 2"
  shows "(m < r) = (2 * m < alen)"
  using assms by presburger

lemma half_two:
  fixes alen :: int
  assumes "r = (alen + 1) div 2"
  shows "(m < alen - r) = (2 * m + 1 < alen)"
  using assms by presburger

lemma S12_cases:
  assumes "x \<in> S12 len"
  obtains m where "0 \<le> m" "x = 3 * m + 1" "3 * m + 1 < len"
        | m where "0 \<le> m" "x = 3 * m + 2" "3 * m + 2 < len"
proof -
  from assms have x: "0 < x" "x < len" "x mod 3 \<noteq> 0" by (simp_all add: S12_def)
  have "x mod 3 = 1 \<or> x mod 3 = 2" using x(3) by presburger
  then show thesis
  proof
    assume "x mod 3 = 1"
    then have "x = 3 * (x div 3) + 1" "0 \<le> x div 3" using x(1) by presburger+
    with x(2) that(1) show thesis by metis
  next
    assume "x mod 3 = 2"
    then have "x = 3 * (x div 3) + 2" "0 \<le> x div 3" using x(1) by presburger+
    with x(2) that(2) show thesis by metis
  qed
qed

lemma S12_one: "0 \<le> m \<Longrightarrow> 3 * m + 1 < len \<Longrightarrow> 3 * m + 1 \<in> S12 len"
  unfolding S12_def by simp

lemma S12_two: "0 \<le> m \<Longrightarrow> 3 * m + 2 < len \<Longrightarrow> 3 * m + 2 \<in> S12 len"
  unfolding S12_def by simp

lemma S12_image:
  assumes "0 \<le> len" "alen = 2 * len div 3"
  shows "(\<lambda>k. k * 3 div 2 + 1) ` {0..<alen} = S12 len"
proof (rule set_eqI, rule iffI)
  define r where "r = (alen + 1) div 2"
  have r: "r = (2 * len div 3 + 1) div 2" by (simp add: r_def assms(2))
  fix x assume "x \<in> (\<lambda>k. k * 3 div 2 + 1) ` {0..<alen}"
  then obtain k where k: "0 \<le> k" "k < alen" "x = k * 3 div 2 + 1" by auto
  show "x \<in> S12 len"
  proof (cases "even k")
    case True
    then obtain m where m: "k = 2 * m" by (elim evenE)
    then have "x = 3 * m + 1" "0 \<le> m" using k by simp_all
    moreover have "3 * m + 1 < len"
      using k(2) m by (simp add: count_one [OF assms(1) r] half_one [OF r_def])
    ultimately show ?thesis by (simp add: S12_one)
  next
    case False
    then obtain m where m: "k = 2 * m + 1" by (elim oddE)
    then have "x = 3 * m + 2" "0 \<le> m" using k by simp_all
    moreover have "3 * m + 2 < len"
      using k(2) m count_two [OF assms(1) r, of m] half_two [OF r_def, of m] assms(2) by simp
    ultimately show ?thesis by (simp add: S12_two)
  qed
next
  define r where "r = (alen + 1) div 2"
  have r: "r = (2 * len div 3 + 1) div 2" by (simp add: r_def assms(2))
  fix x assume "x \<in> S12 len"
  then show "x \<in> (\<lambda>k. k * 3 div 2 + 1) ` {0..<alen}"
  proof (cases rule: S12_cases)
    case (1 m)
    then have "2 * m < alen"
      by (simp add: count_one [OF assms(1) r] half_one [OF r_def])
    moreover have "x = (2 * m) * 3 div 2 + 1" using 1 by simp
    ultimately show ?thesis using 1(1) by (intro image_eqI [where x = "2 * m"]) simp_all
  next
    case (2 m)
    then have "2 * m + 1 < alen"
      using count_two [OF assms(1) r, of m] half_two [OF r_def, of m] assms(2) by simp
    moreover have "x = (2 * m + 1) * 3 div 2 + 1" using 2 by simp
    ultimately show ?thesis using 2(1) by (intro image_eqI [where x = "2 * m + 1"]) simp_all
  qed
qed

lemma a_init_S12:
  assumes "0 \<le> len" "len \<le> 1073741825" "alen = 2 * len div 3"
  shows "set (a_init alen) = S12 len" and "distinct (a_init alen)"
proof -
  have small: "alen \<le> 715827883" using assms by simp
  have eq: "a_init alen = map (\<lambda>k. k * 3 div 2 + 1) (map int [0..<nat alen])"
    by (rule a_init_small [OF small])
  have "set (a_init alen) = (\<lambda>k. k * 3 div 2 + 1) ` set (map int [0..<nat alen])"
    unfolding eq by (rule set_map)
  then show "set (a_init alen) = S12 len"
    unfolding set_int_upt by (simp only: S12_image [OF assms(1,3)])
  have "inj_on (\<lambda>k::int. k * 3 div 2 + 1) A" for A
    by (rule inj_onI) presburger
  moreover have "distinct (map int [0..<nat alen])"
    by (simp add: distinct_map)
  ultimately show "distinct (a_init alen)"
    unfolding eq by (subst distinct_map) simp
qed

lemma js_rem_nonneg: "0 \<le> x \<Longrightarrow> js_rem x n = x mod n"
  by (simp add: js_rem_def)

lemma mset_merge: "mset (merge s lk xs ys) = mset xs + mset ys"
  by (induction s lk xs ys rule: merge.induct) simp_all

lemma unreduce_inj: "inj_on (\<lambda>x::int. if x < r then x * 3 + 1 else (x - r) * 3 + 2) A"
proof (rule inj_onI)
  fix x y :: int
  assume "(if x < r then x * 3 + 1 else (x - r) * 3 + 2) = (if y < r then y * 3 + 1 else (y - r) * 3 + 2)"
  then show "x = y"
    by (cases "x < r"; cases "y < r") (simp_all, presburger+)
qed

lemma set_unreduce:
  assumes "0 \<le> len" "len \<le> 1073741825" "alen = 2 * len div 3" "r = sar32 (alen + 1) 1"
    and "set b = {0..<alen}" "distinct b"
  shows "set (unreduce r b) = S12 len" and "distinct (unreduce r b)"
proof -
  have "sar32 (alen + 1) 1 = (alen + 1) div 2"
    using assms(1-3) by (intro sar32_half) simp_all
  then have r_def: "r = (alen + 1) div 2" using assms(4) by simp
  have r: "r = (2 * len div 3 + 1) div 2" by (simp add: r_def assms(3))
  have r0: "0 \<le> r" using assms(1) r by simp
  let ?g = "\<lambda>x. if x < r then x * 3 + 1 else (x - r) * 3 + 2"
  have img: "?g ` {0..<alen} = S12 len"
  proof (rule set_eqI, rule iffI)
    fix y assume "y \<in> ?g ` {0..<alen}"
    then obtain x where x: "0 \<le> x" "x < alen" "y = ?g x" by auto
    show "y \<in> S12 len"
    proof (cases "x < r")
      case True
      then have "3 * x + 1 < len" by (simp add: count_one [OF assms(1) r])
      then show ?thesis using x True S12_one [of x len] by (simp add: mult.commute)
    next
      case False
      then have "x - r < alen - r" "0 \<le> x - r" using x by simp_all
      then have "3 * (x - r) + 2 < len" using count_two [OF assms(1) r, of "x - r"] assms(3) by simp
      then show ?thesis using x False \<open>0 \<le> x - r\<close> S12_two [of "x - r" len] by (simp add: mult.commute)
    qed
  next
    fix y assume "y \<in> S12 len"
    then show "y \<in> ?g ` {0..<alen}"
    proof (cases rule: S12_cases)
      case (1 m)
      then have "m < r" by (simp add: count_one [OF assms(1) r])
      moreover from this have "m < alen" using half_one [OF r_def, of m] 1(1) by simp
      ultimately show ?thesis using 1 by (intro image_eqI [where x = m]) simp_all
    next
      case (2 m)
      then have "m < alen - r" using count_two [OF assms(1) r, of m] assms(3) by simp
      then show ?thesis using 2 r0 by (intro image_eqI [where x = "m + r"]) simp_all
    qed
  qed
  show "set (unreduce r b) = S12 len"
    using img assms(5) by (simp add: unreduce_def)
  show "distinct (unreduce r b)"
    using assms(6) unreduce_inj [of r "set b"] by (simp add: unreduce_def distinct_map)
qed

lemma set_zero_class:
  assumes "0 \<le> len" "set a = S12 len" "distinct a"
  shows "set (zero_class len a) = S0 len" and "distinct (zero_class len a)"
proof -
  have rem: "js_rem x 3 = x mod 3" if "x \<in> set a" for x
    using that assms(2) by (simp add: js_rem_nonneg S12_def)
  have f: "filter (\<lambda>x. js_rem x 3 = 1) a = filter (\<lambda>x. x mod 3 = 1) a"
    by (rule filter_cong) (simp_all add: rem)
  have zc: "zero_class len a =
      map (\<lambda>x. x - 1) (filter (\<lambda>x. x mod 3 = 1) a) @ (if len mod 3 = 1 then [len - 1] else [])"
    using assms(1) by (simp add: zero_class_def f js_rem_nonneg)
  have front: "set (map (\<lambda>x. x - 1) (filter (\<lambda>x. x mod 3 = 1) a)) = {y. 0 \<le> y \<and> y + 1 < len \<and> y mod 3 = 0}"
  proof (rule set_eqI, rule iffI)
    fix y assume "y \<in> set (map (\<lambda>x. x - 1) (filter (\<lambda>x. x mod 3 = 1) a))"
    then obtain x where "x \<in> S12 len" "x mod 3 = 1" "y = x - 1" using assms(2) by auto
    then have "0 \<le> y \<and> y + 1 < len \<and> y mod 3 = 0"
      unfolding S12_def by simp presburger
    then show "y \<in> {y. 0 \<le> y \<and> y + 1 < len \<and> y mod 3 = 0}" by simp
  next
    fix y assume "y \<in> {y. 0 \<le> y \<and> y + 1 < len \<and> y mod 3 = 0}"
    then have y: "0 \<le> y" "y + 1 < len" "y mod 3 = 0" by simp_all
    then have "(y + 1) mod 3 = 1" by presburger
    with y have "y + 1 \<in> S12 len \<and> (y + 1) mod 3 = 1" unfolding S12_def by simp
    then have "y + 1 \<in> set (filter (\<lambda>x. x mod 3 = 1) a)" using assms(2) by simp
    then have "(y + 1) - 1 \<in> (\<lambda>x. x - 1) ` set (filter (\<lambda>x. x mod 3 = 1) a)" by (rule imageI)
    then show "y \<in> set (map (\<lambda>x. x - 1) (filter (\<lambda>x. x mod 3 = 1) a))" by simp
  qed
  show "set (zero_class len a) = S0 len"
  proof (cases "len mod 3 = 1")
    case True
    have "{y. 0 \<le> y \<and> y + 1 < len \<and> y mod 3 = 0} \<union> {len - 1} = S0 len"
    proof (rule set_eqI)
      fix y
      have "(len - 1) mod 3 = 0" "0 \<le> len - 1" using True assms(1) by presburger+
      then show "(y \<in> {y. 0 \<le> y \<and> y + 1 < len \<and> y mod 3 = 0} \<union> {len - 1}) = (y \<in> S0 len)"
        unfolding S0_def by auto
    qed
    then show ?thesis unfolding zc set_append front using True by simp
  next
    case False
    have "{y. 0 \<le> y \<and> y + 1 < len \<and> y mod 3 = 0} = S0 len"
    proof (rule set_eqI)
      fix y
      have "y mod 3 = 0 \<Longrightarrow> y < len \<Longrightarrow> y + 1 < len" using False by presburger
      then show "(y \<in> {y. 0 \<le> y \<and> y + 1 < len \<and> y mod 3 = 0}) = (y \<in> S0 len)"
        unfolding S0_def by auto
    qed
    then show ?thesis unfolding zc set_append front using False by simp
  qed
  have "distinct (map (\<lambda>x. x - 1) (filter (\<lambda>x. x mod 3 = 1) a))"
    using assms(3) by (simp add: distinct_map inj_on_def)
  moreover have "len - 1 \<notin> set (map (\<lambda>x. x - 1) (filter (\<lambda>x. x mod 3 = 1) a))"
    unfolding front by simp
  ultimately show "distinct (zero_class len a)"
    unfolding zc by simp
qed

lemma S12_S0: "0 \<le> len \<Longrightarrow> S12 len \<union> S0 len = {0..<len}" "S12 len \<inter> S0 len = {}"
  unfolding S12_def S0_def by auto

lemma finish_perm:
  assumes "0 \<le> len" "set a = S12 len" "distinct a"
  shows "set (finish s len a) = {0..<len}" and "distinct (finish s len a)"
proof -
  have m: "mset (finish s len a) = mset (a @ zero_class len a)"
    by (simp add: finish_def mset_merge mset_bsort)
  have "set (finish s len a) = set (a @ zero_class len a)"
    using m by (rule mset_eq_setD)
  then show "set (finish s len a) = {0..<len}"
    using set_zero_class(1) [OF assms] assms(2) S12_S0(1) [OF assms(1)] by simp
  have "distinct (a @ zero_class len a)"
    using set_zero_class [OF assms] assms(2,3) S12_S0(2) by simp
  then show "distinct (finish s len a)"
    using mset_eq_imp_distinct_iff [OF m] by simp
qed


section \<open>Termination and the permutation property\<close>

lemma names_loop_nonneg: "0 \<le> j \<Longrightarrow> 0 \<le> fst (names_loop s r prev xs j b)"
  by (induction xs arbitrary: prev j b) (auto simp: Let_def)

lemma names_nonneg: "0 \<le> fst (names s r a)"
  by (cases a) (auto simp: names_def names_loop_nonneg)

lemma mset_triplet_sort: "mset (triplet_sort s a) = mset a"
  by (simp add: triplet_sort_def mset_bsort)

lemma u_suffixArray_unfold:
  assumes "0 \<le> len" "len \<le> 1125899906842624"
  shows "u_suffixArray s len =
     (if fst (names s (sar32 (2 * len div 3 + 1) 1) (triplet_sort s (a_init (2 * len div 3))))
           < 2 * len div 3 - 1
      then map_option (\<lambda>b'. finish s len (unreduce (sar32 (2 * len div 3 + 1) 1) b'))
             (u_suffixArray
                (reduced (snd (names s (sar32 (2 * len div 3 + 1) 1)
                                 (triplet_sort s (a_init (2 * len div 3))))) (2 * len div 3))
                (2 * len div 3))
      else Some (finish s len (triplet_sort s (a_init (2 * len div 3)))))"
proof -
  have a: "floor_thirds (2 * len) = 2 * len div 3"
    using assms by (intro floor_thirds_small) simp
  have "0 \<le> 2 * len div 3" "2 * len div 3 \<le> 2251799813685248" using assms by simp_all
  then have f: "fill (2 * len div 3) [] = Some (a_init (2 * len div 3))" by (rule fill_a_init)
  have r: "to_double (2 * len div 3 + 1) = 2 * len div 3 + 1"
    using assms by (intro to_double_small) simp
  show ?thesis
    by (subst u_suffixArray.simps) (simp add: a f r Let_def map_conv_bind_option comp_def)
qed

lemma recursion_smaller:
  assumes "0 \<le> len" "fst (names s r a) < 2 * len div 3 - 1"
  shows "0 \<le> 2 * len div 3" "2 * len div 3 < len"
proof -
  have "0 \<le> fst (names s r a)" by (rule names_nonneg)
  with assms(2) have "2 \<le> 2 * len div 3" by simp
  then show "0 \<le> 2 * len div 3" "2 * len div 3 < len" by presburger+
qed

lemma finish_nonempty:
  assumes "0 < len" "a = [] \<Longrightarrow> len = 1"
  shows "finish s len a \<noteq> []"
proof -
  have m: "mset (finish s len a) = mset a + mset (zero_class len a)"
    by (simp add: finish_def mset_merge mset_bsort)
  show ?thesis
  proof (cases "a = []")
    case True
    then have "zero_class len a = [0]" using assms(2) by (simp add: zero_class_def js_rem_def)
    with m True show ?thesis by auto
  next
    case False
    with m show ?thesis by auto
  qed
qed

lemma length_a_init: "length (a_init alen) = nat alen"
  by (simp add: a_init_def)

lemma u_suffixArray_total:
  assumes "0 \<le> len" "len \<le> 1125899906842624"
  shows "\<exists>res. u_suffixArray s len = Some res \<and> (0 < len \<longrightarrow> res \<noteq> [])"
  using assms
proof (induction "nat len" arbitrary: s len rule: less_induct)
  case less
  let ?alen = "2 * len div 3"
  let ?r = "sar32 (?alen + 1) 1"
  let ?a1 = "triplet_sort s (a_init ?alen)"
  let ?jb = "names s ?r ?a1"
  show ?case
  proof (cases "fst ?jb < ?alen - 1")
    case True
    have sm: "0 \<le> ?alen" "?alen < len" using recursion_smaller [OF less.prems(1) True] .
    have "2 \<le> ?alen" using True names_nonneg [of s ?r ?a1] by simp
    then have pos: "0 < ?alen" by simp
    obtain b' where b': "u_suffixArray (reduced (snd ?jb) ?alen) ?alen = Some b'" "b' \<noteq> []"
      using less.hyps [of ?alen "reduced (snd ?jb) ?alen"] sm pos less.prems(2) by auto
    have "unreduce ?r b' \<noteq> []" using b'(2) by (simp add: unreduce_def)
    then have "finish s len (unreduce ?r b') \<noteq> []"
      using less.prems(1) sm by (intro finish_nonempty) simp_all
    then show ?thesis
      using True b'(1) by (subst u_suffixArray_unfold [OF less.prems]) simp_all
  next
    case False
    have "finish s len ?a1 \<noteq> []" if "0 < len"
    proof (rule finish_nonempty [OF that])
      assume "?a1 = []"
      then have "length (a_init ?alen) = 0"
        using mset_triplet_sort [of s "a_init ?alen"] by (metis length_0_conv mset_zero_iff)
      then have "?alen \<le> 0" by (simp add: length_a_init)
      with that show "len = 1" by presburger
    qed
    then show ?thesis
      using False by (subst u_suffixArray_unfold [OF less.prems]) simp_all
  qed
qed

lemma u_suffixArray_perm:
  assumes "0 \<le> len" "len \<le> 1073741825"
  shows "\<exists>res. u_suffixArray s len = Some res \<and> set res = {0..<len} \<and> distinct res"
  using assms
proof (induction "nat len" arbitrary: s len rule: less_induct)
  case less
  have bound: "len \<le> 1125899906842624" using less.prems(2) by simp
  let ?alen = "2 * len div 3"
  let ?r = "sar32 (?alen + 1) 1"
  let ?a1 = "triplet_sort s (a_init ?alen)"
  let ?jb = "names s ?r ?a1"
  show ?case
  proof (cases "fst ?jb < ?alen - 1")
    case True
    have sm: "0 \<le> ?alen" "?alen < len" using recursion_smaller [OF less.prems(1) True] .
    obtain b' where b': "u_suffixArray (reduced (snd ?jb) ?alen) ?alen = Some b'"
        "set b' = {0..<?alen}" "distinct b'"
      using less.hyps [of ?alen "reduced (snd ?jb) ?alen"] sm less.prems by auto
    have "set (unreduce ?r b') = S12 len" "distinct (unreduce ?r b')"
      using set_unreduce [OF less.prems refl refl b'(2,3)] by simp_all
    then have "set (finish s len (unreduce ?r b')) = {0..<len} \<and> distinct (finish s len (unreduce ?r b'))"
      using finish_perm [OF less.prems(1)] by simp
    then show ?thesis
      using True b'(1) by (subst u_suffixArray_unfold [OF less.prems(1) bound]) simp
  next
    case False
    have "set ?a1 = S12 len"
      using a_init_S12(1) [OF less.prems refl] mset_triplet_sort [THEN mset_eq_setD, of s "a_init ?alen"]
      by simp
    moreover have "distinct ?a1"
      using a_init_S12(2) [OF less.prems refl] mset_eq_imp_distinct_iff [OF mset_triplet_sort, of s "a_init ?alen"]
      by simp
    ultimately have "set (finish s len ?a1) = {0..<len} \<and> distinct (finish s len ?a1)"
      using finish_perm [OF less.prems(1)] by simp
    then show ?thesis
      using False by (subst u_suffixArray_unfold [OF less.prems(1) bound]) simp
  qed
qed

section \<open>The result depends on the symbols at non-negative indices only\<close>













section \<open>The entry point on a function and on a string\<close>

lemma length_perm: "distinct res \<Longrightarrow> set res = {0..<len} \<Longrightarrow> length res = nat len"
  using distinct_card [of res] by simp

lemma suffixArray_Text_Undefined:
  "suffixArray (Text t) Undefined = suffixArray (Fn (charCodeAt t)) (Number (int (length t)))"
  by (simp add: suffixArray_fn_def)

lemma suffixArray_Fn_Number:
  "suffixArray (Fn f) (Number len) = u_suffixArray (\<lambda>i. if i \<ge> len then 0 else f i) len"
  by (simp add: suffixArray_fn_def)

lemma suffixArray_Fn_perm:
  assumes "0 \<le> n" "n \<le> 2 ^ 30 + 1"
  shows "\<exists>res. suffixArray (Fn f) (Number n) = Some res
         \<and> length res = nat n \<and> distinct res \<and> set res = {0..<n}"
proof -
  from assms have "n \<le> 1073741825" by simp
  from u_suffixArray_perm [OF assms(1) this, of "\<lambda>i. if i \<ge> n then 0 else f i"]
  obtain res where "u_suffixArray (\<lambda>i. if i \<ge> n then 0 else f i) n = Some res"
    "set res = {0..<n}" "distinct res" by blast
  then show ?thesis using length_perm [of res n] by (simp add: suffixArray_fn_def)
qed

lemma mset_finish: "mset (finish s len a) = mset (a @ zero_class len a)"
  by (simp add: finish_def mset_merge mset_bsort)


text \<open>
  The merge loops of the source run while \<open>i < alen\<close> and \<open>j < blen\<close>; the merge of
  the model runs to the ends of the two lists. These are the same: \<open>a\<close> has \<open>alen\<close>
  items and \<open>b\<close> has \<open>blen = len - alen\<close> items.
\<close>

lemma length_zero_class:
  assumes "0 \<le> len" "len \<le> 1073741825" "set a = S12 len" "distinct a"
  shows "int (length a) = 2 * len div 3" and "int (length (zero_class len a)) = len - 2 * len div 3"
proof -
  have "length a = card (S12 len)" using assms(3,4) distinct_card [of a] by simp
  also have "\<dots> = length (a_init (2 * len div 3))"
    using a_init_S12 [OF assms(1,2) refl] distinct_card [of "a_init (2 * len div 3)"] by simp
  finally show a: "int (length a) = 2 * len div 3" using assms(1) by (simp add: length_a_init)
  have "length (finish (\<lambda>i. 0) len a) = nat len"
    using finish_perm [OF assms(1,3,4), of "\<lambda>i. 0"] by (simp add: length_perm)
  moreover have "length (finish (\<lambda>i. 0) len a) = length a + length (zero_class len a)"
    using mset_finish [THEN mset_eq_length, of "\<lambda>i. 0" len a] by simp
  ultimately show "int (length (zero_class len a)) = len - 2 * len div 3"
    using a assms(1) by linarith
qed

section \<open>Every slot of the array of names is written\<close>

lemma names_loop_dom:
  "dom (snd (names_loop s r prev xs j b)) = dom b \<union> slot r ` set xs"
  by (induction xs arbitrary: prev j b) (auto simp: Let_def)

lemma names_slots: "dom (snd (names s r a)) = slot r ` set a"
  by (cases a) (auto simp: names_def names_loop_dom)

lemma slot_S12:
  assumes "0 \<le> len" "alen = 2 * len div 3" "r = (alen + 1) div 2"
  shows "slot r ` S12 len = {0..<alen}"
proof (rule set_eqI, rule iffI)
  have r: "r = (2 * len div 3 + 1) div 2" by (simp add: assms(2,3))
  fix i assume "i \<in> slot r ` S12 len"
  then obtain x where x: "x \<in> S12 len" "i = slot r x" by auto
  from x(1) show "i \<in> {0..<alen}"
  proof (cases rule: S12_cases)
    case (1 m)
    then have "m < r" by (simp add: count_one [OF assms(1) r])
    then have "m < alen" using half_one [OF assms(3), of m] 1(1) by simp
    moreover have "slot r x = m" using 1 by (simp add: slot_def js_rem_def)
    ultimately show ?thesis using 1(1) x(2) by simp
  next
    case (2 m)
    then have "m < alen - r" using count_two [OF assms(1) r, of m] assms(2) by simp
    moreover have "slot r x = m + r" using 2 by (simp add: slot_def js_rem_def)
    moreover have "0 \<le> r" using assms by simp
    ultimately show ?thesis using 2(1) x(2) by simp
  qed
next
  have r: "r = (2 * len div 3 + 1) div 2" by (simp add: assms(2,3))
  fix i assume "i \<in> {0..<alen}"
  then have i: "0 \<le> i" "i < alen" by simp_all
  show "i \<in> slot r ` S12 len"
  proof (cases "i < r")
    case True
    then have "3 * i + 1 < len" by (simp add: count_one [OF assms(1) r])
    then have "3 * i + 1 \<in> S12 len" using i(1) by (rule S12_one [rotated])
    moreover have "slot r (3 * i + 1) = i" using i(1) by (simp add: slot_def js_rem_def)
    ultimately show ?thesis by (metis imageI)
  next
    case False
    then have m: "0 \<le> i - r" "i - r < alen - r" using i by simp_all
    then have "3 * (i - r) + 2 < len" using count_two [OF assms(1) r, of "i - r"] assms(2) by simp
    then have "3 * (i - r) + 2 \<in> S12 len" using m(1) by (rule S12_two [rotated])
    moreover have "slot r (3 * (i - r) + 2) = i"
    proof -
      define m where "m = i - r"
      have "0 \<le> m" using m(1) by (simp add: m_def)
      then have "slot r (3 * m + 2) = m + r" by (simp add: slot_def js_rem_def)
      then show ?thesis by (simp add: m_def)
    qed
    ultimately show ?thesis by (metis imageI)
  qed
qed

lemma names_dom:
  assumes "0 \<le> len" "len \<le> 1073741825"
  shows "dom (snd (names s (sar32 (2 * len div 3 + 1) 1) (triplet_sort s (a_init (2 * len div 3)))))
           = {0..<2 * len div 3}"
proof -
  have "sar32 (2 * len div 3 + 1) 1 = (2 * len div 3 + 1) div 2"
    using assms by (intro sar32_half) simp_all
  moreover have "set (triplet_sort s (a_init (2 * len div 3))) = S12 len"
    using a_init_S12(1) [OF assms refl] mset_triplet_sort [THEN mset_eq_setD, of s "a_init (2 * len div 3)"]
    by simp
  ultimately show ?thesis
    using slot_S12 [OF assms(1) refl refl] by (simp add: names_slots)
qed

section \<open>Distinct first symbols: no recursive call\<close>

lemma names_loop_distinct:
  "distinct (map s (prev # xs)) \<Longrightarrow> fst (names_loop s r prev xs j b) = j + int (length xs)"
proof (induction xs arbitrary: prev j b)
  case Nil
  then show ?case by simp
next
  case (Cons x xs)
  from Cons.prems have ne: "s x \<noteq> s prev" and d: "distinct (map s (x # xs))" by auto
  show ?case using Cons.IH [OF d] ne by (simp add: Let_def)
qed

lemma names_distinct:
  assumes "distinct (map s a)"
  shows "fst (names s r a) = (if a = [] then 0 else int (length a) - 1)"
proof (cases a)
  case Nil
  then show ?thesis by (simp add: names_def)
next
  case (Cons x xs)
  then show ?thesis using names_loop_distinct [of s x xs r 0] assms by (simp add: names_def)
qed

lemma no_recursion_if_inj:
  assumes "0 \<le> len" "distinct (a_init (2 * len div 3))" "inj_on s (set (a_init (2 * len div 3)))"
    and "len \<le> 1125899906842624"
  shows "u_suffixArray s len = Some (finish s len (triplet_sort s (a_init (2 * len div 3))))"
proof -
  let ?alen = "2 * len div 3"
  let ?a1 = "triplet_sort s (a_init ?alen)"
  have alen: "0 \<le> ?alen" using assms(1) by simp
  have m: "mset ?a1 = mset (a_init ?alen)" by (rule mset_triplet_sort)
  have "distinct ?a1" using mset_eq_imp_distinct_iff [OF m] assms(2) by simp
  moreover have "set ?a1 = set (a_init ?alen)" using m by (rule mset_eq_setD)
  ultimately have "distinct (map s ?a1)" using assms(3) by (simp add: distinct_map)
  then have j: "fst (names s r ?a1) = (if ?a1 = [] then 0 else int (length ?a1) - 1)" for r
    by (rule names_distinct)
  have "length ?a1 = length (a_init ?alen)" using m by (rule mset_eq_length)
  then have len_a1: "int (length ?a1) = ?alen" using alen by (simp add: length_a_init)
  have "\<not> fst (names s r ?a1) < ?alen - 1" for r
    unfolding j using len_a1 by auto
  then show ?thesis
    by (subst u_suffixArray_unfold [OF assms(1,4)]) simp
qed


section \<open>The guard of the recursive call\<close>

text \<open>
  The last name \<open>j\<close> counts the positions of the sorted array whose triplet differs
  from the one before: it stays below \<open>alen - 1\<close> exactly when two neighbours have the
  same triplet. The names written to \<open>b\<close> are the integers from 0 to \<open>j\<close>.
\<close>

lemma names_loop_count:
  "fst (names_loop s r prev xs j b) =
     j + int (length (filter (\<lambda>(p, x). triple s x \<noteq> triple s p) (zip (prev # xs) xs)))"
  by (induction xs arbitrary: prev j b) (auto simp: Let_def triple_def)

lemma names_guard:
  "fst (names s r a) < int (length a) - 1 \<longleftrightarrow>
     (\<exists>k. Suc k < length a \<and> triple s (a ! Suc k) = triple s (a ! k))"
proof (cases a)
  case Nil
  then show ?thesis by (simp add: names_def)
next
  case (Cons x xs)
  let ?P = "\<lambda>(p, x). triple s x \<noteq> triple s p"
  let ?z = "zip (x # xs) xs"
  have l: "length ?z = length xs" by simp
  have "fst (names s r a) < int (length a) - 1 \<longleftrightarrow> length (filter ?P ?z) < length ?z"
    unfolding Cons l by (simp add: names_def names_loop_count)
  also have "\<dots> \<longleftrightarrow> (\<exists>y\<in>set ?z. \<not> ?P y)"
  proof
    assume "length (filter ?P ?z) < length ?z"
    then have "filter ?P ?z \<noteq> ?z" by auto
    then show "\<exists>y\<in>set ?z. \<not> ?P y" by (simp only: filter_id_conv) blast
  next
    assume "\<exists>y\<in>set ?z. \<not> ?P y"
    then show "length (filter ?P ?z) < length ?z" by (blast intro: length_filter_less)
  qed
  also have "\<dots> \<longleftrightarrow> (\<exists>k. k < length xs \<and> triple s (xs ! k) = triple s ((x # xs) ! k))"
    by (auto simp: set_zip)
  also have "\<dots> \<longleftrightarrow> (\<exists>k. Suc k < length a \<and> triple s (a ! Suc k) = triple s (a ! k))"
    by (simp add: Cons)
  finally show ?thesis .
qed

lemma adjacent_not_inj:
  assumes "distinct a" "Suc k < length a" "f (a ! Suc k) = f (a ! k)"
  shows "\<not> inj_on f (set a)"
proof
  assume "inj_on f (set a)"
  moreover have "a ! Suc k \<in> set a" "a ! k \<in> set a" using assms(2) by simp_all
  ultimately have "a ! Suc k = a ! k" using assms(3) by (simp add: inj_on_def)
  then have "Suc k = k" using assms(1,2) by (simp add: nth_eq_iff_index_eq)
  then show False by simp
qed

lemma sorted_adjacent:
  fixes f :: "'a \<Rightarrow> 'b::linorder"
  assumes "sorted (map f a)" "\<not> inj_on f (set a)"
  shows "\<exists>k. Suc k < length a \<and> f (a ! Suc k) = f (a ! k)"
proof -
  from assms(2) obtain x y where "x \<in> set a" "y \<in> set a" "f x = f y" "x \<noteq> y"
    by (auto simp: inj_on_def)
  then obtain i j where ij: "i < length a" "j < length a" "a ! i = x" "a ! j = y"
    by (auto simp: in_set_conv_nth)
  with \<open>x \<noteq> y\<close> have "i \<noteq> j" by auto
  have main: "\<exists>k. Suc k < length a \<and> f (a ! Suc k) = f (a ! k)"
    if "i < j" "j < length a" "f (a ! i) = f (a ! j)" for i j
  proof -
    have s: "sorted (map f a)" by (rule assms(1))
    have "f (a ! i) \<le> f (a ! Suc i)"
      using sorted_nth_mono [OF s, of i "Suc i"] that by simp
    moreover have "f (a ! Suc i) \<le> f (a ! j)"
      using sorted_nth_mono [OF s, of "Suc i" j] that by simp
    ultimately have "f (a ! Suc i) = f (a ! i)" using that(3) by simp
    moreover have "Suc i < length a" using that by simp
    ultimately show ?thesis by blast
  qed
  show ?thesis
  proof (cases "i < j")
    case True
    then show ?thesis using main [of i j] ij \<open>f x = f y\<close> by simp
  next
    case False
    then have "j < i" using \<open>i \<noteq> j\<close> by simp
    then show ?thesis using main [of j i] ij \<open>f x = f y\<close> by simp
  qed
qed

lemma names_loop_ran:
  assumes "distinct (map (slot r) xs)" "slot r ` set xs \<inter> dom b = {}" "j \<in> ran b"
  shows "ran (snd (names_loop s r prev xs j b)) = ran b \<union> {j..fst (names_loop s r prev xs j b)}"
  using assms
proof (induction xs arbitrary: prev j b)
  case Nil
  then show ?case by auto
next
  case (Cons x xs)
  define j' where "j' = (if s x \<noteq> s prev \<or> s (x + 1) \<noteq> s (prev + 1) \<or> s (x + 2) \<noteq> s (prev + 2)
                then j + 1 else j)"
  define b' where "b' = b(slot r x \<mapsto> j')"
  have fresh: "b (slot r x) = None" using Cons.prems(2) by auto
  then have ranb': "ran b' = ran b \<union> {j'}" by (simp add: b'_def)
  have 1: "distinct (map (slot r) xs)" using Cons.prems(1) by simp
  have 2: "slot r ` set xs \<inter> dom b' = {}" using Cons.prems(1,2) by (auto simp: b'_def)
  have 3: "j' \<in> ran b'" by (simp add: ranb')
  have step: "names_loop s r prev (x # xs) j b = names_loop s r x xs j' b'"
    by (simp add: j'_def b'_def Let_def)
  have ge: "j' \<le> fst (names_loop s r x xs j' b')"
    by (simp add: names_loop_count)
  have jj: "j' = j \<or> j' = j + 1" by (simp add: j'_def)
  have "ran (snd (names_loop s r x xs j' b')) = ran b' \<union> {j'..fst (names_loop s r x xs j' b')}"
    by (rule Cons.IH [OF 1 2 3])
  also have "\<dots> = ran b \<union> {j..fst (names_loop s r x xs j' b')}"
  proof -
    define F where "F = fst (names_loop s r x xs j' b')"
    have "{j..F} = insert j {j'..F}"
    proof (rule set_eqI)
      fix v
      have "(j \<le> v \<and> v \<le> F) = (v = j \<or> (j' \<le> v \<and> v \<le> F))"
        using ge jj unfolding F_def [symmetric] by linarith
      then show "(v \<in> {j..F}) = (v \<in> insert j {j'..F})" by simp
    qed
    moreover have "insert j (ran b) = ran b" using Cons.prems(3) by blast
    moreover have "j' \<in> insert j {j'..F}" using ge by (simp add: F_def)
    ultimately show ?thesis unfolding ranb' F_def [symmetric] by blast
  qed
  finally show ?case unfolding step .
qed

lemma names_ran:
  assumes "a \<noteq> []" "distinct (map (slot r) a)"
  shows "ran (snd (names s r a)) = {0..fst (names s r a)}"
proof -
  from assms(1) obtain x xs where a: "a = x # xs" by (cases a) auto
  have "ran (snd (names_loop s r x xs 0 [slot r x \<mapsto> 0])) =
        ran [slot r x \<mapsto> 0] \<union> {0..fst (names_loop s r x xs 0 [slot r x \<mapsto> 0])}"
    using assms(2) unfolding a by (intro names_loop_ran) auto
  moreover have "0 \<le> fst (names_loop s r x xs 0 [slot r x \<mapsto> 0])" by (simp add: names_loop_count)
  ultimately show ?thesis by (auto simp: a names_def)
qed

lemma card_S12:
  assumes "0 \<le> len" "len \<le> 1073741825"
  shows "int (card (S12 len)) = 2 * len div 3"
proof -
  have "card (S12 len) = length (a_init (2 * len div 3))"
    using a_init_S12 [OF assms refl] distinct_card [of "a_init (2 * len div 3)"] by simp
  then show ?thesis using assms(1) by (simp add: length_a_init)
qed

lemma slot_inj:
  assumes "0 \<le> len" "len \<le> 1073741825"
  shows "inj_on (slot ((2 * len div 3 + 1) div 2)) (S12 len)"
proof (rule eq_card_imp_inj_on)
  have "set (a_init (2 * len div 3)) = S12 len" by (rule a_init_S12(1) [OF assms refl])
  then show "finite (S12 len)" by (metis List.finite_set)
  have "int (card (slot ((2 * len div 3 + 1) div 2) ` S12 len)) = 2 * len div 3"
    using assms(1) by (simp add: slot_S12 [OF assms(1) refl refl])
  then show "card (slot ((2 * len div 3 + 1) div 2) ` S12 len) = card (S12 len)"
    using card_S12 [OF assms] by simp
qed

lemma sorted_triplets_S12:
  assumes "0 \<le> len" "len \<le> 1073741825"
  shows "set (triplet_sort s (a_init (2 * len div 3))) = S12 len"
    and "distinct (triplet_sort s (a_init (2 * len div 3)))"
    and "int (length (triplet_sort s (a_init (2 * len div 3)))) = 2 * len div 3"
proof -
  let ?a0 = "a_init (2 * len div 3)"
  have m: "mset (triplet_sort s ?a0) = mset ?a0" by (rule mset_triplet_sort)
  show "set (triplet_sort s ?a0) = S12 len"
    using mset_eq_setD [OF m] a_init_S12(1) [OF assms refl] by simp
  show "distinct (triplet_sort s ?a0)"
    using mset_eq_imp_distinct_iff [OF m] a_init_S12(2) [OF assms refl] by simp
  show "int (length (triplet_sort s ?a0)) = 2 * len div 3"
    using mset_eq_length [OF m] assms(1) by (simp add: length_a_init)
qed

lemma u_suffixArray_stuck: "u_suffixArray s 18014398509481984 = None"
  by (subst u_suffixArray.simps) (simp add: floor_thirds_2_55 fill_stuck)

section \<open>The first loop above \<open>2^30 + 1\<close>\<close>

lemma a_init_Suc:
  assumes "0 \<le> n"
  shows "a_init (n + 1) = a_init n @ [sar32 (n * 3) 1 + 1]"
proof -
  have "nat (n + 1) = Suc (nat n)" using assms by simp
  then show ?thesis using assms by (simp add: a_init_def)
qed

lemma sar32_wrapped: "sar32 (715827883 * 3) 1 + 1 = - 1073741823"
  by (simp add: sar32_def toInt32_def)

lemma a_init_large: "a_init 715827884 = a_init 715827883 @ [- 1073741823]"
  using a_init_Suc [of 715827883] sar32_wrapped by simp

lemma a_init_large_set:
  "set (a_init 715827884) = S12 1073741825 \<union> {- 1073741823}"
  "distinct (a_init 715827884)"
proof -
  have e: "(2 * 1073741825 div 3 :: int) = 715827883" by simp
  have s: "set (a_init 715827883) = S12 1073741825"
    using a_init_S12(1) [of 1073741825 715827883] by simp
  have d: "distinct (a_init 715827883)"
    using a_init_S12(2) [of 1073741825 715827883] by simp
  show "set (a_init 715827884) = S12 1073741825 \<union> {- 1073741823}"
    unfolding a_init_large using s by simp
  have "- 1073741823 \<notin> S12 1073741825" by (simp add: S12_def)
  then show "distinct (a_init 715827884)"
    unfolding a_init_large using s d by simp
qed

lemma big_alen: "2 * big div 3 = 715827884"
  by (simp add: big_def)

lemma probe_lo_inj: "inj_on (\<lambda>i. if i \<ge> big then 0 else probe_lo i) (set (a_init 715827884))"
  unfolding a_init_large_set(1)
  by (rule inj_onI) (auto simp: S12_def probe_lo_def big_def split: if_splits)


lemma big_lo:
  "suffixArray (Fn probe_lo) (Number big) =
     Some (finish (\<lambda>i. if i \<ge> big then 0 else probe_lo i) big
            (triplet_sort (\<lambda>i. if i \<ge> big then 0 else probe_lo i) (a_init 715827884)))"
  unfolding suffixArray_Fn_Number
  using no_recursion_if_inj [of big "\<lambda>i. if i \<ge> big then 0 else probe_lo i"]
    a_init_large_set(2) probe_lo_inj
  unfolding big_alen by (simp add: big_def)












section \<open>The claims\<close>

subsection \<open>C1: the result is a permutation\<close>

text \<open>
  Claim C1 (as amended): for every call \<open>suffixArray(s, len)\<close> with an integer
  \<open>0 \<le> len \<le> 2^30 + 1\<close> and any integer-valued \<open>s\<close>, and for every string of at most
  \<open>2^30 + 1\<close> characters called without a length, the call returns an array of
  length \<open>len\<close> that holds every index of \<open>[0, len)\<close> exactly once, whether or not
  the recursive step was taken.
\<close>

theorem suffixArray_permutation:
  "(0 \<le> len \<and> len \<le> 2 ^ 30 + 1 \<longrightarrow>
      (\<exists>res. suffixArray (Fn s) (Number len) = Some res
         \<and> length res = nat len \<and> distinct res \<and> set res = {0..<len}))
   \<and> (int (length t) \<le> 2 ^ 30 + 1 \<longrightarrow>
      (\<exists>res. suffixArray (Text t) Undefined = Some res
         \<and> length res = length t \<and> distinct res \<and> set res = {0..<int (length t)}))"
proof (intro conjI impI)
  assume "0 \<le> len \<and> len \<le> 2 ^ 30 + 1"
  then show "\<exists>res. suffixArray (Fn s) (Number len) = Some res
       \<and> length res = nat len \<and> distinct res \<and> set res = {0..<len}"
    using suffixArray_Fn_perm [of len s] by simp
next
  assume "int (length t) \<le> 2 ^ 30 + 1"
  then show "\<exists>res. suffixArray (Text t) Undefined = Some res
       \<and> length res = length t \<and> distinct res \<and> set res = {0..<int (length t)}"
    using suffixArray_Fn_perm [of "int (length t)" "charCodeAt t"]
    by (simp add: suffixArray_Text_Undefined)
qed

text \<open>
  Claim C1, witness: the constant sequence of four symbols 7, and the string
  \<open>"banana"\<close>.
\<close>

theorem suffixArray_permutation_witness:
  "(\<exists>res. suffixArray (Fn (\<lambda>i. 7)) (Number 4) = Some res
         \<and> length res = nat 4 \<and> distinct res \<and> set res = {0..<4})
   \<and> (\<exists>res. suffixArray (Text ''banana'') Undefined = Some res
         \<and> length res = length ''banana'' \<and> distinct res \<and> set res = {0..<int (length ''banana'')})"
proof -
  have "0 \<le> (4::int) \<and> (4::int) \<le> 2 ^ 30 + 1" "int (length ''banana'') \<le> 2 ^ 30 + 1" by simp_all
  with suffixArray_permutation [of 4 "\<lambda>i. 7" "''banana''"] show ?thesis by blast
qed

text \<open>
  Claim C1 as stated fails at \<open>len = 2^30 + 2\<close>: there \<open>alen = 715827884\<close>, and for
  the last index \<open>i = 715827883\<close> the product \<open>i * 3 = 2^31 + 1\<close> wraps in \<open>>> 1\<close>,
  so that \<open>a[i]\<close> becomes \<open>-1073741823\<close>. With the accessor \<open>probe_lo\<close> all
  triplets differ, no recursion rebuilds \<open>a\<close>, and the negative value reaches the
  result.
\<close>

theorem suffixArray_large_counterexample:
  "\<not> (\<exists>res. suffixArray (Fn probe_lo) (Number 1073741826) = Some res
         \<and> length res = nat 1073741826 \<and> distinct res \<and> set res = {0..<1073741826})"
proof
  assume "\<exists>res. suffixArray (Fn probe_lo) (Number 1073741826) = Some res
         \<and> length res = nat 1073741826 \<and> distinct res \<and> set res = {0..<1073741826}"
  then obtain res where res: "suffixArray (Fn probe_lo) (Number big) = Some res"
    "set res = {0..<1073741826}" by (auto simp: big_def)
  let ?w = "\<lambda>i. if i \<ge> big then 0 else probe_lo i"
  have "- 1073741823 \<in> set (a_init 715827884)" by (simp add: a_init_large)
  then have "- 1073741823 \<in> set (triplet_sort ?w (a_init 715827884))"
    using mset_triplet_sort [THEN mset_eq_setD, of ?w "a_init 715827884"] by simp
  then have "- 1073741823 \<in> set (finish ?w big (triplet_sort ?w (a_init 715827884)))"
    using mset_finish [THEN mset_eq_setD, of ?w big "triplet_sort ?w (a_init 715827884)"] by simp
  then have "- 1073741823 \<in> set res" using res(1) unfolding big_lo by simp
  then show False unfolding res(2) by simp
qed

subsection \<open>C2: lexicographic order\<close>

text \<open>
  Claim C2, at the failing input \<open>suffixArray("aa")\<close>: the code returns \<open>[0, 1]\<close>,
  which lists the suffix \<open>"aa"\<close> before its proper prefix \<open>"a"\<close>, so the result is not
  in the order of the suffixes. In the merge, \<open>lookup[2]\<close> is \<open>undefined\<close>, the
  difference is NaN, and \<open>NaN < 0\<close> is false. The same holds for the function that
  returns the symbol 1 everywhere, with length 2.
\<close>

theorem suffixArray_aa:
  "suffixArray (Text ''aa'') Undefined = Some [0, 1]
   \<and> \<not> suffixes_sorted (charCodeAt ''aa'') 2 [0, 1]
   \<and> suffixArray (Fn (\<lambda>i. 1)) (Number 2) = Some [0, 1]
   \<and> \<not> suffixes_sorted (\<lambda>i. 1) 2 [0, 1]"
proof -
  have "suffixArray (Text ''aa'') Undefined = Some [0, 1]" by code_simp
  moreover have "\<not> suffixes_sorted (charCodeAt ''aa'') 2 [0, 1]"
    by (simp add: suffixes_sorted_def suffix_at_def charCodeAt_def upto_rec1)
  moreover have "suffixArray (Fn (\<lambda>i. 1)) (Number 2) = Some [0, 1]" by code_simp
  moreover have "\<not> suffixes_sorted (\<lambda>i. 1) 2 [0, 1]"
    by (simp add: suffixes_sorted_def suffix_at_def upto_rec1)
  ultimately show ?thesis by blast
qed

subsection \<open>C3: the termination policy\<close>

text \<open>
  Claim C3 (as amended): \<open>suffixArray\<close> takes the sequence and a length and has no
  termination-policy parameter. A second argument \<open>"wrap"\<close> or \<open>"min"\<close> is taken as
  the length; it is NaN as a number and the result is the empty array for every
  input. Without a second argument, reads at or beyond the length give the
  symbol 0 and \<open>suffixArray("baa")\<close> is \<open>[2, 1, 0]\<close>.
\<close>

theorem suffixArray_no_policy:
  "suffixArray src (Word ''wrap'') = Some []
   \<and> suffixArray src (Word ''min'') = Some []
   \<and> suffixArray (Text ''baa'') Undefined = Some [2, 1, 0]"
proof -
  have "suffixArray (Text ''baa'') Undefined = Some [2, 1, 0]" by code_simp
  then show ?thesis by (cases src) (simp_all add: suffixArray_fn_def u_suffixArray_NaN_empty)
qed

text \<open>Claim C3 as stated fails: \<open>suffixArray("baa", "wrap")\<close> is not \<open>[1, 2, 0]\<close>.\<close>

theorem suffixArray_wrap_counterexample:
  "suffixArray (Text ''baa'') (Word ''wrap'') \<noteq> Some [1, 2, 0]"
  by code_simp

subsection \<open>C4: bsort\<close>

text \<open>
  Claim C4 (as amended): for every array of items and every key function whose keys
  on the items are integers in \<open>[0, 2^32)\<close>, \<open>bsort\<close> returns a stable permutation
  of the items ascending by key: the result has the same items, its keys are sorted,
  and the items of any one key keep their relative order; \<open>bsort\<close> of the empty
  array is empty.
\<close>

theorem bsort_stable_sort:
  assumes "\<forall>x\<in>set items. 0 \<le> keyOf x \<and> keyOf x < 2 ^ 32"
  shows "mset (bsort items keyOf) = mset items
       \<and> sorted (map keyOf (bsort items keyOf))
       \<and> (\<forall>k. filter (\<lambda>x. keyOf x = k) (bsort items keyOf) = filter (\<lambda>x. keyOf x = k) items)
       \<and> bsort [] keyOf = []"
proof -
  have "bsort items keyOf = sort_key keyOf items"
    using assms by (intro bsort_sort_key) simp
  then show ?thesis by (simp add: sort_key_stable bsort_Nil)
qed

text \<open>Claim C4, witness: the items 300, 5, 70000, 5 with themselves as keys.\<close>

theorem bsort_stable_sort_witness:
  "mset (bsort [300, 5, 70000, 5 :: int] id) = mset [300, 5, 70000, 5]
   \<and> sorted (map id (bsort [300, 5, 70000, 5 :: int] id))"
proof -
  have h: "\<forall>x\<in>set [300, 5, 70000, 5 :: int]. 0 \<le> id x \<and> id x < 2 ^ 32" by simp
  from bsort_stable_sort [OF h] show ?thesis by blast
qed

text \<open>
  Claim C4 as stated fails for a key of \<open>2^32\<close>: \<open>j >> 24\<close>, \<open>j >> 16\<close> and \<open>j >> 8\<close>
  are all 0 for \<open>j = 2^32\<close>, so only two passes over the low 8 bits run, and
  the items \<open>2^32, 1\<close> stay in this order.
\<close>

theorem bsort_wide_key_counterexample:
  "\<not> sorted (map (\<lambda>x. x) (bsort [4294967296, 1 :: int] (\<lambda>x. x)))"
  by code_simp

subsection \<open>C5: the triplet sort\<close>

text \<open>
  Claim C5 (as amended): for every accessor whose symbols at \<open>i\<close>, \<open>i + 1\<close> and
  \<open>i + 2\<close>, for the indices \<open>i\<close> of the array, are integers in \<open>[0, 2^32)\<close>, the three
  successive \<open>bsort\<close> passes keyed by \<open>s(i + 2)\<close>, \<open>s(i + 1)\<close> and \<open>s(i)\<close> order the
  array ascending by the triple \<open>(s(i), s(i + 1), s(i + 2))\<close>, and stably so.
\<close>

theorem triplet_sort_lex:
  assumes "\<forall>i\<in>set a. \<forall>k\<in>{0, 1, 2}. 0 \<le> s (k + i) \<and> s (k + i) < 2 ^ 32"
  shows "triplet_sort s a = sort_key (\<lambda>i. (s i, s (i + 1), s (i + 2))) a"
  by (rule triplet_sort_sort_key) (use assms in simp)

text \<open>Claim C5, witness: the indices 1, 2 of a sequence of three symbols 5.\<close>

theorem triplet_sort_lex_witness:
  "triplet_sort (\<lambda>i. if 3 \<le> i then 0 else 5) [1, 2] =
     sort_key (\<lambda>i. ((\<lambda>i. if 3 \<le> i then 0 else 5 :: int) i, (\<lambda>i. if 3 \<le> i then 0 else 5 :: int) (i + 1),
                     (\<lambda>i. if 3 \<le> i then 0 else 5 :: int) (i + 2))) [1, 2]"
proof -
  have h: "\<forall>i\<in>set [1, 2]. \<forall>k\<in>{0, 1, 2}.
      0 \<le> (\<lambda>i. if 3 \<le> i then 0 else 5 :: int) (k + i) \<and> (\<lambda>i. if 3 \<le> i then 0 else 5 :: int) (k + i) < 2 ^ 32"
    by simp
  show ?thesis by (rule triplet_sort_lex [OF h])
qed

text \<open>
  Claim C5 as stated fails for the symbols \<open>1, 2^32, 1\<close>: the pass keyed by \<open>s(i)\<close>
  sees the keys \<open>2^32\<close> and 1 and leaves index 1 before index 2, although the triple
  at index 2 is the smaller one.
\<close>

theorem triplet_sort_wide_symbol_counterexample:
  "triplet_sort wide3 [1, 2] \<noteq> sort_key (\<lambda>i. (wide3 i, wide3 (i + 1), wide3 (i + 2))) [1, 2]"
  unfolding triplet_sort_wide3 sort_key_wide3 by simp

subsection \<open>C6: recursion and termination\<close>

text \<open>
  Claim C6 as stated fails at \<open>len = 2^54\<close>: \<open>alen = floor(2 * len / 3)\<close> is
  \<open>12009599006321322\<close>, above \<open>2^53\<close>, where the doubles are 2 apart. The first
  \<open>i--\<close> gives \<open>12009599006321320\<close> (the tie \<open>\<dots>321\<close> goes to the even neighbour),
  and every later \<open>i--\<close> gives \<open>12009599006321320\<close> again: the counter of the first
  loop never reaches 0 and the call does not return.
\<close>

theorem u_suffixArray_rounding_counterexample:
  "floor_thirds (2 * 18014398509481984) = 12009599006321322
   \<and> js_dec 12009599006321322 = 12009599006321320
   \<and> js_dec 12009599006321320 = 12009599006321320
   \<and> fill 12009599006321322 [] = None
   \<and> u_suffixArray (\<lambda>i. 1) 18014398509481984 = None
   \<and> suffixArray (Fn (\<lambda>i. 1)) (Number 18014398509481984) = None"
  by (simp add: floor_thirds_2_55 js_dec_stuck fill_stuck u_suffixArray_stuck suffixArray_fn_def)

text \<open>
  Claim C6 (as amended): for every integer \<open>0 \<le> len \<le> 2^30 + 1\<close>,
  \<open>_suffixArray\<close> returns. \<open>alen = floor(2 * len / 3)\<close> is computed without rounding
  and is the number of indices of \<open>S12\<close>, and the first loop ends. With \<open>a1\<close> the
  array after the three sorts and \<open>j\<close> the last name, the guard \<open>j < alen - 1\<close> holds
  exactly when two neighbours in \<open>a1\<close> have the same triplet. It holds only if two
  indices of \<open>S12\<close> have the same triplet, and, when the symbols read by the sorts
  are in \<open>[0, 2^32)\<close>, whenever they do. Every slot below \<open>alen\<close> of \<open>b\<close> holds a name
  and the names are exactly \<open>0, \<dots>, j\<close>, so that the guard says that the names are
  not all distinct. When the guard holds, \<open>0 \<le> alen < len\<close> and the result is built
  from one recursive call, on the names with length \<open>alen\<close>; when it fails, no
  recursive call is made.
\<close>

theorem u_suffixArray_recursion:
  assumes "0 \<le> len" "len \<le> 2 ^ 30 + 1"
  shows "let alen = 2 * len div 3;
             r = sar32 (alen + 1) 1;
             a1 = triplet_sort s (a_init alen);
             jb = names s r a1;
             recurse = (fst jb < alen - 1)
         in floor_thirds (2 * len) = alen \<and> int (card (S12 len)) = alen
          \<and> fill alen [] = Some (a_init alen)
          \<and> (\<exists>res. u_suffixArray s len = Some res)
          \<and> (recurse \<longleftrightarrow> (\<exists>k. Suc k < length a1 \<and> triple s (a1 ! Suc k) = triple s (a1 ! k)))
          \<and> (recurse \<longrightarrow> \<not> inj_on (triple s) (S12 len))
          \<and> ((\<forall>i\<in>S12 len. \<forall>k\<in>{0, 1, 2}. 0 \<le> s (k + i) \<and> s (k + i) < 2 ^ 32)
                \<and> \<not> inj_on (triple s) (S12 len) \<longrightarrow> recurse)
          \<and> dom (snd jb) = {0..<alen}
          \<and> (0 < alen \<longrightarrow> ran (snd jb) = {0..fst jb})
          \<and> (recurse \<longrightarrow>
                0 \<le> alen \<and> alen < len
                \<and> u_suffixArray s len =
                    map_option (\<lambda>b. finish s len (unreduce r b))
                      (u_suffixArray (reduced (snd jb) alen) alen))
          \<and> (\<not> recurse \<longrightarrow> u_suffixArray s len = Some (finish s len a1))"
proof -
  define alen where "alen = 2 * len div 3"
  define r where "r = sar32 (alen + 1) 1"
  define a1 where "a1 = triplet_sort s (a_init alen)"
  define jb where "jb = names s r a1"
  define recurse where "recurse = (fst jb < alen - 1)"
  have b: "len \<le> 1073741825" using assms(2) by simp
  have b2: "len \<le> 1125899906842624" using assms(2) by simp
  have r2: "r = (alen + 1) div 2"
    unfolding r_def alen_def using assms(1) b by (intro sar32_half) simp_all
  have a1: "set a1 = S12 len" "distinct a1" "int (length a1) = alen"
    unfolding a1_def alen_def by (rule sorted_triplets_S12 [OF assms(1) b])+
  have 1: "floor_thirds (2 * len) = alen"
    unfolding alen_def using assms(1) b by (intro floor_thirds_small) simp
  have 2: "int (card (S12 len)) = alen" unfolding alen_def by (rule card_S12 [OF assms(1) b])
  have 3: "fill alen [] = Some (a_init alen)"
    unfolding alen_def using assms(1) b by (intro fill_a_init) simp_all
  have 4: "\<exists>res. u_suffixArray s len = Some res"
    using u_suffixArray_total [OF assms(1) b2, of s] by blast
  have 5: "recurse \<longleftrightarrow> (\<exists>k. Suc k < length a1 \<and> triple s (a1 ! Suc k) = triple s (a1 ! k))"
    unfolding recurse_def jb_def a1(3) [symmetric] by (rule names_guard)
  have 6: "\<not> inj_on (triple s) (S12 len)" if recurse
  proof -
    from that 5 obtain k where "Suc k < length a1" "triple s (a1 ! Suc k) = triple s (a1 ! k)"
      by blast
    then show ?thesis using adjacent_not_inj [OF a1(2), of k "triple s"] a1(1) by simp
  qed
  have 7: recurse
    if "(\<forall>i\<in>S12 len. \<forall>k\<in>{0, 1, 2}. 0 \<le> s (k + i) \<and> s (k + i) < 2 ^ 32)
          \<and> \<not> inj_on (triple s) (S12 len)"
  proof -
    have "set (a_init alen) = S12 len" unfolding alen_def by (rule a_init_S12(1) [OF assms(1) b refl])
    with that have "\<forall>i\<in>set (a_init alen). \<forall>k\<in>{0, 1, 2}. 0 \<le> s (k + i) \<and> s (k + i) < 4294967296"
      by simp
    then have "a1 = sort_key (triple s) (a_init alen)"
      unfolding a1_def triple_def by (rule triplet_sort_sort_key)
    then have "sorted (map (triple s) a1)" by simp
    moreover have "\<not> inj_on (triple s) (set a1)" using that a1(1) by simp
    ultimately show ?thesis unfolding 5 by (rule sorted_adjacent)
  qed
  have 8: "dom (snd jb) = {0..<alen}"
    unfolding jb_def a1_def r_def alen_def by (rule names_dom [OF assms(1) b])
  have 9: "ran (snd jb) = {0..fst jb}" if "0 < alen"
  proof -
    have "a1 \<noteq> []" using that a1(3) by auto
    moreover have "inj_on (slot r) (set a1)"
      unfolding a1(1) r2 alen_def by (rule slot_inj [OF assms(1) b])
    then have "distinct (map (slot r) a1)" using a1(2) by (simp add: distinct_map)
    ultimately show ?thesis unfolding jb_def by (rule names_ran)
  qed
  have u: "u_suffixArray s len =
     (if recurse then map_option (\<lambda>b'. finish s len (unreduce r b'))
                       (u_suffixArray (reduced (snd jb) alen) alen)
      else Some (finish s len a1))"
    unfolding recurse_def jb_def a1_def r_def alen_def by (rule u_suffixArray_unfold [OF assms(1) b2])
  have 10: "0 \<le> alen \<and> alen < len" if recurse
    using recursion_smaller [OF assms(1), of s r a1] that unfolding recurse_def jb_def alen_def by simp
  have 11: "u_suffixArray s len =
      map_option (\<lambda>b. finish s len (unreduce r b)) (u_suffixArray (reduced (snd jb) alen) alen)"
    if recurse
    using u that by simp
  have 12: "u_suffixArray s len = Some (finish s len a1)" if "\<not> recurse"
    using u that by simp
  from 1 2 3 4 5 6 7 8 9 10 11 12 show ?thesis
    unfolding Let_def alen_def [symmetric] r_def [symmetric] a1_def [symmetric] jb_def [symmetric]
      recurse_def [symmetric]
    by blast
qed


text \<open>
  Claim C6, witness: the string \<open>"aaaaa"\<close>, where the triplets at 1 and 2 are equal
  and the recursive call is made on length 3, and the symbols \<open>1, 2^32, 1\<close>, where
  all names differ and no recursive call is made.
\<close>

theorem u_suffixArray_recursion_witness:
  "(\<exists>res. u_suffixArray run5 5 = Some res)
   \<and> \<not> inj_on (triple run5) (S12 5)
   \<and> 2 * 5 div 3 < (5::int)
   \<and> u_suffixArray run5 5 =
       map_option (\<lambda>b. finish run5 5 (unreduce (sar32 (2 * 5 div 3 + 1) 1) b))
         (u_suffixArray (reduced (snd (names run5 (sar32 (2 * 5 div 3 + 1) 1)
             (triplet_sort run5 (a_init (2 * 5 div 3))))) (2 * 5 div 3)) (2 * 5 div 3))
   \<and> u_suffixArray wide3 3 = Some (finish wide3 3 (triplet_sort wide3 (a_init (2 * 3 div 3))))"
proof -
  have g5: "fst (names run5 (sar32 (2 * 5 div 3 + 1) 1) (triplet_sort run5 (a_init (2 * 5 div 3))))
             < 2 * 5 div 3 - 1"
    by code_simp
  have g3: "\<not> fst (names wide3 (sar32 (2 * 3 div 3 + 1) 1) (triplet_sort wide3 (a_init (2 * 3 div 3))))
             < 2 * 3 div 3 - 1"
    by code_simp
  have h: "(0::int) \<le> 5" "(5::int) \<le> 2 ^ 30 + 1" "(0::int) \<le> 3" "(3::int) \<le> 2 ^ 30 + 1"
    by simp_all
  show ?thesis
    using u_suffixArray_recursion [OF h(1,2), of run5] u_suffixArray_recursion [OF h(3,4), of wide3] g5 g3
    unfolding Let_def by blast
qed

subsection \<open>C7: the reference vectors\<close>

text \<open>
  Claim C7 (as amended): called without a second argument, \<open>suffixArray("aaa")\<close>
  returns \<open>[2, 1, 0]\<close>, \<open>suffixArray("baa")\<close> returns \<open>[2, 1, 0]\<close> and
  \<open>suffixArray("banana")\<close> returns \<open>[5, 3, 1, 0, 4, 2]\<close>; with \<open>"min"\<close> as second
  argument each call returns the empty array.
\<close>

theorem suffixArray_reference_vectors:
  "suffixArray (Text ''aaa'') Undefined = Some [2, 1, 0]
   \<and> suffixArray (Text ''baa'') Undefined = Some [2, 1, 0]
   \<and> suffixArray (Text ''banana'') Undefined = Some [5, 3, 1, 0, 4, 2]
   \<and> suffixArray (Text ''aaa'') (Word ''min'') = Some []
   \<and> suffixArray (Text ''baa'') (Word ''min'') = Some []
   \<and> suffixArray (Text ''banana'') (Word ''min'') = Some []"
  by code_simp

text \<open>Claim C7 as stated fails: \<open>suffixArray("aaa", "min")\<close> is not \<open>[2, 1, 0]\<close>.\<close>

theorem suffixArray_min_counterexample:
  "suffixArray (Text ''aaa'') (Word ''min'') \<noteq> Some [2, 1, 0]"
  by code_simp

subsection \<open>C8: negative length\<close>

text \<open>
  Claim C8 (as amended): the source has no \<open>throw\<close> and no check of the length.
  A call either returns an array (\<open>Some\<close>) or does not return (\<open>None\<close>). Called
  with a negative length, \<open>suffixArray\<close> goes straight into \<open>_suffixArray\<close>, where
  the first loop \<open>i = alen; while (i--)\<close> starts below 0 and never ends: the call
  does not return, for a string as for a function.
\<close>

theorem suffixArray_negative_length:
  "len < 0 \<Longrightarrow> suffixArray src (Number len) = None"
  by (cases src) (simp_all add: suffixArray_fn_def u_suffixArray_negative)

text \<open>
  Claim C8, witness: the string \<open>"abc"\<close> with length \<open>-2\<close>.
\<close>

theorem suffixArray_negative_length_witness:
  "suffixArray (Text ''abc'') (Number (- 2)) = None"
  using suffixArray_negative_length [of "- 2" "Text ''abc''"] by simp

text \<open>
  Claim C8 as stated fails at length \<open>-1\<close>: the first loop is entered with
  \<open>i = floor(-2 / 3) = -1\<close> and does not end; no error is produced.
\<close>

theorem suffixArray_no_validation_counterexample:
  "fill (2 * (- 1) div 3) [] = None \<and> suffixArray (Fn (\<lambda>i. 1)) (Number (- 1)) = None"
  by (simp add: fill_negative suffixArray_fn_def u_suffixArray_negative)

subsection \<open>C9: the indices read\<close>




subsection \<open>C10: an explicit length of 0\<close>

text \<open>
  Claim C10 as stated fails for the string \<open>"aa"\<close>: with the explicit length 0 the
  call returns \<open>[0, 1]\<close>, an array of the length of the string, but not the suffix
  array of the string: the suffix \<open>"aa"\<close> at index 0 comes before its prefix \<open>"a"\<close> at
  index 1.
\<close>

theorem explicit_zero_length_counterexample:
  "suffixArray (Text ''aa'') (Number 0) = Some [0, 1]
   \<and> \<not> suffixes_sorted (charCodeAt ''aa'') (int (length ''aa'')) [0, 1]"
proof -
  have "suffixArray (Text ''aa'') (Number 0) = Some [0, 1]" by code_simp
  moreover have "\<not> suffixes_sorted (charCodeAt ''aa'') (int (length ''aa'')) [0, 1]"
    by (simp add: suffixes_sorted_def suffix_at_def charCodeAt_def upto_rec1)
  ultimately show ?thesis by blast
qed

text \<open>
  Claim C10 (as amended): for a string, an explicit length 0 is falsy in
  \<open>len || s.length\<close> and is replaced by the length of the string. The call returns
  what the call without a length returns, which is the result of the function
  branch on \<open>charCodeAt\<close> and the length of the string; for a string of at most
  \<open>2^30 + 1\<close> characters this is an array of the length of the string that holds
  every index of the string once (so it is not the empty array unless the string
  is empty). It need not be in suffix order, as shown above. The same holds of the
  string branch for code units of any width. For a function, length 0 is used as it
  is and the result is the empty array.
\<close>

theorem explicit_zero_length:
  "suffixArray (Text t) (Number 0) = suffixArray (Text t) Undefined
   \<and> suffixArray (Text t) (Number 0) = suffixArray (Fn (charCodeAt t)) (Number (int (length t)))
   \<and> (int (length t) \<le> 2 ^ 30 + 1 \<longrightarrow>
        (\<exists>res. suffixArray (Text t) (Number 0) = Some res
               \<and> length res = length t \<and> distinct res \<and> set res = {0..<int (length t)}))
   \<and> suffixArray (Text t) len = suffixArray_units (charCodeAt t) (int (length t)) len
   \<and> suffixArray_units c n (Number 0) = suffixArray_units c n Undefined
   \<and> suffixArray_units c n (Number 0) = suffixArray (Fn c) (Number n)
   \<and> (0 \<le> n \<and> n \<le> 2 ^ 30 + 1 \<longrightarrow>
        (\<exists>res. suffixArray_units c n (Number 0) = Some res
               \<and> length res = nat n \<and> distinct res \<and> set res = {0..<n}))
   \<and> suffixArray (Fn f) (Number 0) = Some []"
proof -
  have e: "suffixArray (Text t) (Number 0) = suffixArray (Text t) Undefined" by simp
  have u: "suffixArray (Text t) len = suffixArray_units (charCodeAt t) (int (length t)) len"
    by (simp add: suffixArray_units_def)
  have v: "suffixArray_units c n (Number 0) = suffixArray_units c n Undefined"
    "suffixArray_units c n (Number 0) = suffixArray (Fn c) (Number n)"
    by (simp_all add: suffixArray_units_def)
  have z: "suffixArray (Fn f) (Number 0) = Some []"
    unfolding suffixArray_Fn_Number
    by (subst u_suffixArray_unfold)
       (simp_all add: a_init_def triplet_sort_def bsort_Nil names_def finish_def zero_class_def js_rem_def)
  have l: "\<exists>res. suffixArray (Text t) (Number 0) = Some res
             \<and> length res = length t \<and> distinct res \<and> set res = {0..<int (length t)}"
    if "int (length t) \<le> 2 ^ 30 + 1"
    using suffixArray_Fn_perm [of "int (length t)" "charCodeAt t"] that
    unfolding e suffixArray_Text_Undefined by auto
  have m: "\<exists>res. suffixArray_units c n (Number 0) = Some res
             \<and> length res = nat n \<and> distinct res \<and> set res = {0..<n}"
    if "0 \<le> n \<and> n \<le> 2 ^ 30 + 1"
    using suffixArray_Fn_perm [of n c] that unfolding v(2) by auto
  from e u v z l m show ?thesis by (simp add: suffixArray_Text_Undefined)
qed

text \<open>
  Claim C10, witness: the string \<open>"banana"\<close>, and a string of the three code units
  \<open>955, 8364, 955\<close>.
\<close>

theorem explicit_zero_length_witness:
  "(\<exists>res. suffixArray (Text ''banana'') (Number 0) = Some res
          \<and> length res = length ''banana'' \<and> distinct res \<and> set res = {0..<int (length ''banana'')})
   \<and> (\<exists>res. suffixArray_units (\<lambda>i. if i = 1 then 8364 else 955) 3 (Number 0) = Some res
          \<and> length res = nat 3 \<and> distinct res \<and> set res = {0..<3})"
proof -
  have "int (length ''banana'') \<le> 2 ^ 30 + 1" "(0::int) \<le> 3 \<and> (3::int) \<le> 2 ^ 30 + 1" by simp_all
  with explicit_zero_length [of "''banana''" Undefined "\<lambda>i. if i = 1 then 8364 else 955" 3 "\<lambda>i. 0"]
  show ?thesis by blast
qed

end
